theory Spec2Isabelle
  imports Main "HOL-Library.Word"
begin

unbundle bit_operations_syntax

section \<open>The MSCAN driver \<^verbatim>\<open>mscan.c\<close>: data model\<close>

text \<open>
  The target is an HCS12 (MC9S12C32): \<^verbatim>\<open>byte\<close> is an unsigned 8-bit integer,
  \<^verbatim>\<open>word\<close> an unsigned 16-bit integer and \<^verbatim>\<open>dword\<close> an unsigned 32-bit
  integer; multi-byte objects are stored most significant byte first.
\<close>

type_synonym byte = "8 word"
type_synonym word16 = "16 word"
type_synonym dword = "32 word"

text \<open>
  Modelled from the spec: \<^verbatim>\<open>PAYLOAD_SIZE\<close> is defined in \<^verbatim>\<open>mscan.h\<close>, which is
  not part of the sources at hand. The spec gives the size of the receive buffer as the
  protocol's maximum payload, 8 bytes.
\<close>

definition PAYLOAD_SIZE :: byte where
  "PAYLOAD_SIZE = 8"

text \<open>
  Modelled from the spec: \<^verbatim>\<open>CANframe\<close> is declared in \<^verbatim>\<open>mscan.h\<close> (absent). The
  fields are the four that \<^verbatim>\<open>CANsend\<close> accesses: \<^verbatim>\<open>id\<close>, \<^verbatim>\<open>payload\<close>,
  \<^verbatim>\<open>length\<close> and \<^verbatim>\<open>priority\<close>. The payload is the caller's byte array; its list
  length is the extent of that array, so that an access behind it is visible in the model.
  (\<open>id\<close> and \<open>length\<close> clash with constants of HOL and carry a suffix.)
\<close>

record CANframe =
  id_f :: word16
  payload :: "byte list"
  length_f :: byte
  priority :: byte

text \<open>
  The state is the memory the driver works on: its two file-scope variables, the
  interrupt mask of the CPU (set by \<^verbatim>\<open>DisableInterrupts\<close>, cleared by
  \<^verbatim>\<open>EnableInterrupts\<close>) and the registers of the MSCAN module that the driver names.
  Bit fields of a register that the source accesses by name (\<^verbatim>\<open>CANCTL1_CANE\<close>, ...)
  are fields of their own. The data segment registers \<^verbatim>\<open>CANTXDSR0..7\<close> and
  \<^verbatim>\<open>CANRXDSR0..7\<close> are memory mapped in sequence and addressed by the source as
  \<^verbatim>\<open>*(&CANTXDSR0 + i)\<close>, so each group is a list of eight bytes.

  The registers change by the writes of the driver. What the hardware does on its own
  enters the model at two places: as the values that a status register shows while the
  driver polls it in a loop, and as the frames that it presents in the receive registers.

  The bus timing and filter mode are written through macros of \<^verbatim>\<open>mscan.h\<close>
  (\<^verbatim>\<open>SET_MSCAN_PRESCALE\<close>, ...), which is absent; the fields \<open>clk_src\<close> ...
  \<open>acc_mode\<close> hold the quantity each macro programs instead of its bit encoding
  (\<open>clk_src\<close> the frequency of the selected clock in Hz).
\<close>

record state =
  rxbuffer :: "byte list"
  data_available_flag :: byte
  I_mask :: bool
  CANCTL1_CANE :: bool
  CANCTL0_INITRQ :: bool
  CANCTL1_INITAK :: bool
  CANCTL0_TIME :: bool
  CANCTL1_LISTEN :: bool
  CANCTL1_LOOPB :: bool
  clk_src :: int
  prescale :: nat
  time_seg1 :: nat
  time_seg2 :: nat
  jump_width :: nat
  sample_bits :: nat
  acc_mode :: nat
  CANIDMR0 :: byte
  CANIDMR1 :: byte
  CANIDAR0 :: byte
  CANIDAR1 :: byte
  CANRIER_RXFIE :: bool
  CANRFLG :: byte
  CANTFLG :: byte
  CANTBSEL :: byte
  CANTXIDR0 :: byte
  CANTXIDR1 :: byte
  CANTXIDR2 :: byte
  CANTXIDR3 :: byte
  CANTXDSR :: "byte list"
  CANTXDLR :: byte
  CANTXTBPR :: byte
  CANTXTSRH :: byte
  CANTXTSRL :: byte
  CANRXDSR :: "byte list"
  CANRXDLR :: byte

text \<open>
  Faults of the C program that the model makes explicit: an access behind the end of
  \<^verbatim>\<open>rxbuffer\<close>, a read behind the end of the caller's payload array, and a store
  behind the last transmit data segment register.
\<close>

datatype fault = RxBufferOverrun | PayloadOverrun | DataSegmentOverrun

text \<open>
  A well-formed state has the arrays at their declared sizes:
  \<^verbatim>\<open>rxbuffer[PAYLOAD_SIZE]\<close> and eight data segment registers in each direction.
\<close>

definition wf_state :: "state \<Rightarrow> bool" where
  "wf_state s \<longleftrightarrow>
     length (rxbuffer s) = unat PAYLOAD_SIZE \<and>
     length (CANTXDSR s) = 8 \<and>
     length (CANRXDSR s) = 8"

section \<open>Receive path\<close>

text \<open>\<^verbatim>\<open>CANRXDLR_DLC\<close>: the four-bit data length code in the low bits of \<^verbatim>\<open>CANRXDLR\<close>.\<close>

definition CANRXDLR_DLC :: "state \<Rightarrow> byte" where
  "CANRXDLR_DLC s = CANRXDLR s AND 0x0F"

text \<open>\<^verbatim>\<open>CANRFLG_RXF_MASK\<close>: the receive-buffer-full flag is bit 0 of \<^verbatim>\<open>CANRFLG\<close>.\<close>

definition CANRFLG_RXF_MASK :: byte where
  "CANRFLG_RXF_MASK = 1"

text \<open>
  The copy loop of the handler,
  \<^verbatim>\<open>for(i=0; i<length; i++) rxbuffer[i] = *(&CANRXDSR0 + i);\<close>
  with the \<^verbatim>\<open>byte\<close> counter \<open>i\<close>. A store at an index that is not below
  \<^verbatim>\<open>PAYLOAD_SIZE\<close> lies outside \<^verbatim>\<open>rxbuffer\<close>: the model stops with a fault there.
\<close>

function rx_copy :: "byte \<Rightarrow> byte \<Rightarrow> state \<Rightarrow> fault + state" where
  "rx_copy len i s =
     (if i < len then
        (if i < PAYLOAD_SIZE then
           rx_copy len (i + 1) (s\<lparr>rxbuffer := (rxbuffer s)[unat i := CANRXDSR s ! unat i]\<rparr>)
         else Inl RxBufferOverrun)
      else Inr s)"
  by pat_completeness auto
termination
proof (relation "measure (\<lambda>(len, i, s). unat len - unat i)")
  show "wf (measure (\<lambda>(len, i, s). unat len - unat i))" by simp
next
  fix len i :: byte and s :: state
  assume "i < len"
  then have "unat len - unat (i + 1) < unat len - unat i" by unat_arith
  then show "((len, i + 1, s\<lparr>rxbuffer := (rxbuffer s)[unat i := CANRXDSR s ! unat i]\<rparr>),
                    (len, i, s)) \<in> measure (\<lambda>(len, i, s). unat len - unat i)"
    by simp
qed

declare rx_copy.simps [simp del]

text \<open>
  The receive interrupt handler. The timestamp is read (from the transmit timestamp
  registers, as the source does) into a local that is never used. Writing
  \<^verbatim>\<open>CANRFLG_RXF_MASK\<close> to \<^verbatim>\<open>CANRFLG\<close> clears the flag \<^verbatim>\<open>RXF\<close> (the flags of
  this register are cleared by writing a one).
\<close>

definition CANreceiveISR :: "state \<Rightarrow> fault + state" where
  "CANreceiveISR s =
     (let len = CANRXDLR_DLC s in
      case rx_copy len 0 s of
        Inl f \<Rightarrow> Inl f
      | Inr s1 \<Rightarrow>
          let timestamp = (push_bit 8 (ucast (CANTXTSRH s1)) OR ucast (CANTXTSRL s1) :: word16);
              s2 = s1\<lparr>data_available_flag := 1\<rparr>
          in Inr (s2\<lparr>CANRFLG := CANRFLG s2 AND NOT CANRFLG_RXF_MASK\<rparr>))"

text \<open>
  Modelled from the spec: \<^verbatim>\<open>dataMessage\<close> is declared in \<^verbatim>\<open>mscan.h\<close> (absent); the
  spec describes the received payload as a fixed-size buffer of 8 bytes, and
  \<^verbatim>\<open>CANget\<close> writes it through a \<^verbatim>\<open>byte\<close> pointer, so the message is a byte list.
\<close>

type_synonym dataMessage = "byte list"

text \<open>
  \<^verbatim>\<open>CANget\<close> copies \<^verbatim>\<open>PAYLOAD_SIZE\<close> bytes of \<^verbatim>\<open>rxbuffer\<close> into the caller's
  message, between \<^verbatim>\<open>DisableInterrupts\<close> and \<^verbatim>\<open>EnableInterrupts\<close>:
  \<^verbatim>\<open>for(i=0; i<PAYLOAD_SIZE; i++) *((byte*)message + i) = rxbuffer[i];\<close>
\<close>

function get_copy :: "state \<Rightarrow> byte \<Rightarrow> dataMessage \<Rightarrow> dataMessage" where
  "get_copy s i message =
     (if i < PAYLOAD_SIZE then get_copy s (i + 1) (message[unat i := rxbuffer s ! unat i])
      else message)"
  by pat_completeness auto
termination
proof (relation "measure (\<lambda>(s, i, message). unat PAYLOAD_SIZE - unat i)")
  show "wf (measure (\<lambda>(s, i, message). unat PAYLOAD_SIZE - unat i))" by simp
next
  fix s :: state and i :: byte and message :: dataMessage
  assume "i < PAYLOAD_SIZE"
  then have "unat PAYLOAD_SIZE - unat (i + 1) < unat PAYLOAD_SIZE - unat i" by unat_arith
  then show "((s, i + 1, message[unat i := rxbuffer s ! unat i]), (s, i, message))
                    \<in> measure (\<lambda>(s, i, message). unat PAYLOAD_SIZE - unat i)"
    by simp
qed

declare get_copy.simps [simp del]

definition CANget :: "state \<Rightarrow> dataMessage \<Rightarrow> dataMessage \<times> state" where
  "CANget s message =
     (let s1 = s\<lparr>I_mask := True\<rparr>;
          message' = get_copy s1 0 message
      in (message', s1\<lparr>I_mask := False\<rparr>))"

definition data_available :: "state \<Rightarrow> byte" where
  "data_available s = data_available_flag s"

definition data_used :: "state \<Rightarrow> state" where
  "data_used s =
     (let s1 = s\<lparr>I_mask := True\<rparr>;
          s2 = s1\<lparr>data_available_flag := 0\<rparr>
      in s2\<lparr>I_mask := False\<rparr>)"

section \<open>Waiting for the hardware\<close>

text \<open>
  The driver waits for the hardware in loops with an empty body, \<^verbatim>\<open>while(c);\<close>, where
  \<open>c\<close> reads a status register. What the hardware shows is not decided by the driver:
  \<open>rd n\<close> is the value that the \<open>n\<close>-th read of the status register returns. The loop
  returns the index of the read that ended it; when no read ends it, the loop runs for
  ever and the result is \<open>None\<close>.
\<close>

partial_function (option) spin_while :: "('a \<Rightarrow> bool) \<Rightarrow> (nat \<Rightarrow> 'a) \<Rightarrow> nat \<Rightarrow> nat option" where
  "spin_while c rd n = (if c (rd n) then spin_while c rd (Suc n) else Some n)"

declare spin_while.simps [code]

section \<open>Initialisation\<close>

text \<open>
  Modelled from the spec: the arguments of the timing and filter macros are defined in
  \<^verbatim>\<open>mscan.h\<close> (absent). Each constant stands for the quantity that its name and the
  comments of \<^verbatim>\<open>CANinit\<close> give: the bus clock of 8 MHz, a prescaler value of 1, a time
  segment 1 of 4 time quanta, a time segment 2 of 3 time quanta, a synchronisation jump
  width of 4 time quanta, one sample per bit, and filter mode number 1 of the module
  (four 16-bit acceptance filters).
\<close>

definition MSCAN_CLK_SRC_BUS :: int where
  "MSCAN_CLK_SRC_BUS = 8000000"

definition MSCAN_PRESCALE_1 :: nat where
  "MSCAN_PRESCALE_1 = 1"

definition MSCAN_TIME_SEG1_4 :: nat where
  "MSCAN_TIME_SEG1_4 = 4"

definition MSCAN_TIME_SEG2_3 :: nat where
  "MSCAN_TIME_SEG2_3 = 3"

definition MSCAN_SJW_4TQ :: nat where
  "MSCAN_SJW_4TQ = 4"

definition MSCAN_SAMPLE_1 :: nat where
  "MSCAN_SAMPLE_1 = 1"

definition MSCAN_ACC_4_16 :: nat where
  "MSCAN_ACC_4_16 = 1"

text \<open>
  The comment at the head of \<^verbatim>\<open>mscan.c\<close>: the bit rate is \<open>b = f/KN\<close> for the clock
  frequency \<open>f\<close>, the prescaler value \<open>K\<close> and the number \<open>N\<close> of time quanta per bit
  time, \<open>N = 1 + time_seg1 + time_seg2\<close>.
\<close>

definition quanta_per_bit :: "state \<Rightarrow> nat" where
  "quanta_per_bit s = 1 + time_seg1 s + time_seg2 s"

definition bit_rate :: "state \<Rightarrow> int" where
  "bit_rate s = clk_src s div int (prescale s * quanta_per_bit s)"

text \<open>
  A 16-bit store through \<^verbatim>\<open>*((word*)(&R0))\<close> writes the high byte to \<open>R0\<close> and the low
  byte to the register after it; a 32-bit store writes four registers in the same order.
  \<open>reg16\<close> and \<open>reg32\<close> read such a group back as one value.
\<close>

definition hi_byte :: "word16 \<Rightarrow> byte" where
  "hi_byte w = ucast (drop_bit 8 w)"

definition lo_byte :: "word16 \<Rightarrow> byte" where
  "lo_byte w = ucast w"

definition reg16 :: "byte \<Rightarrow> byte \<Rightarrow> word16" where
  "reg16 b0 b1 = push_bit 8 (ucast b0) OR ucast b1"

definition reg32 :: "byte \<Rightarrow> byte \<Rightarrow> byte \<Rightarrow> byte \<Rightarrow> dword" where
  "reg32 b0 b1 b2 b3 =
     push_bit 24 (ucast b0) OR push_bit 16 (ucast b1) OR push_bit 8 (ucast b2) OR ucast b3"

text \<open>
  \<^verbatim>\<open>CANinit\<close>. The two loops poll \<^verbatim>\<open>CANCTL1_INITAK\<close>; \<open>ack n\<close> is what the
  \<open>n\<close>-th poll reads. The build without \<^verbatim>\<open>USE_LOOPBACK\<close> is modelled.
\<close>

definition CANinit :: "(nat \<Rightarrow> bool) \<Rightarrow> state \<Rightarrow> word16 \<Rightarrow> state option" where
  "CANinit ack s id_w =
     (let s1 = s\<lparr>CANCTL1_CANE := True\<rparr>;
          s2 = s1\<lparr>CANCTL0_INITRQ := True\<rparr>
      in case spin_while (\<lambda>initak. \<not> initak) ack 0 of
           None \<Rightarrow> None
         | Some n1 \<Rightarrow>
             let s3 = s2\<lparr>CANCTL1_INITAK := ack n1\<rparr>;
                 s4 = s3\<lparr>clk_src := MSCAN_CLK_SRC_BUS\<rparr>;
                 s5 = s4\<lparr>prescale := MSCAN_PRESCALE_1\<rparr>;
                 s6 = s5\<lparr>time_seg1 := MSCAN_TIME_SEG1_4\<rparr>;
                 s7 = s6\<lparr>time_seg2 := MSCAN_TIME_SEG2_3\<rparr>;
                 s8 = s7\<lparr>jump_width := MSCAN_SJW_4TQ\<rparr>;
                 s9 = s8\<lparr>sample_bits := MSCAN_SAMPLE_1\<rparr>;
                 s10 = s9\<lparr>CANCTL0_TIME := True\<rparr>;
                 s11 = s10\<lparr>CANCTL1_LISTEN := False\<rparr>;
                 s12 = s11\<lparr>CANCTL1_LOOPB := False\<rparr>;
                 s13 = s12\<lparr>acc_mode := MSCAN_ACC_4_16\<rparr>;
                 idmr = 0x0007 OR NOT (push_bit 5 id_w);
                 s14 = s13\<lparr>CANIDMR0 := hi_byte idmr, CANIDMR1 := lo_byte idmr\<rparr>;
                 idar = push_bit 5 id_w;
                 s15 = s14\<lparr>CANIDAR0 := hi_byte idar, CANIDAR1 := lo_byte idar\<rparr>;
                 s16 = s15\<lparr>CANCTL0_INITRQ := False\<rparr>
             in (case spin_while (\<lambda>initak. initak) ack (Suc n1) of
                   None \<Rightarrow> None
                 | Some n2 \<Rightarrow>
                     let s17 = s16\<lparr>CANCTL1_INITAK := ack n2\<rparr>
                     in Some (s17\<lparr>CANRIER_RXFIE := True\<rparr>)))"

text \<open>
  Modelled from the spec: the acceptance filter is hardware. In the mode of four 16-bit
  filters a received frame is compared as the 16-bit word of its identifier registers
  (identifier bits 10..0, then RTR, IDE and three unused bits). The frame is accepted
  when it equals the acceptance identifier on every bit that the mask does not mark as
  don't care; a mask bit of 1 is don't care (the source sets the last three bits to 1 for
  that purpose).
\<close>

definition filter_accepts :: "word16 \<Rightarrow> word16 \<Rightarrow> word16 \<Rightarrow> bool" where
  "filter_accepts idar idmr rx \<longleftrightarrow> (rx XOR idar) AND NOT idmr = 0"

text \<open>The filter that a state holds in the register pairs written by \<^verbatim>\<open>CANinit\<close>.\<close>

definition acceptance_id :: "state \<Rightarrow> word16" where
  "acceptance_id s = reg16 (CANIDAR0 s) (CANIDAR1 s)"

definition acceptance_mask :: "state \<Rightarrow> word16" where
  "acceptance_mask s = reg16 (CANIDMR0 s) (CANIDMR1 s)"

definition accepts :: "word16 \<Rightarrow> state \<Rightarrow> bool" where
  "accepts rx s \<longleftrightarrow> filter_accepts (acceptance_id s) (acceptance_mask s) rx"

section \<open>Transmit path\<close>

text \<open>\<^verbatim>\<open>CANTFLG_TXE\<close>: the three transmit-buffer-empty flags, bits 2..0 of \<^verbatim>\<open>CANTFLG\<close>.\<close>

definition CANTFLG_TXE :: "state \<Rightarrow> byte" where
  "CANTFLG_TXE s = CANTFLG s AND 0x07"

text \<open>
  \<^verbatim>\<open>CANTBSEL\<close> keeps the three select bits that are written to it; reading it returns
  only the lowest bit that is set (the buffer that is selected).
\<close>

definition write_CANTBSEL :: "byte \<Rightarrow> state \<Rightarrow> state" where
  "write_CANTBSEL v s = s\<lparr>CANTBSEL := v AND 0x07\<rparr>"

definition read_CANTBSEL :: "state \<Rightarrow> byte" where
  "read_CANTBSEL s =
     (if bit (CANTBSEL s) 0 then 1
      else if bit (CANTBSEL s) 1 then 2
      else if bit (CANTBSEL s) 2 then 4
      else 0)"

text \<open>Writing a one to a flag of \<^verbatim>\<open>CANTFLG\<close> clears it; the buffer is then scheduled.\<close>

definition write_CANTFLG :: "byte \<Rightarrow> state \<Rightarrow> state" where
  "write_CANTFLG v s = s\<lparr>CANTFLG := CANTFLG s AND NOT v\<rparr>"

text \<open>
  The copy loop of \<^verbatim>\<open>CANsend\<close>,
  \<^verbatim>\<open>for(i=0; i<frame->length; i++) *(&CANTXDSR0 + i) = frame->payload[i];\<close>
\<close>

function tx_copy :: "CANframe \<Rightarrow> byte \<Rightarrow> state \<Rightarrow> fault + state" where
  "tx_copy frame i s =
     (if i < length_f frame then
        (if \<not> unat i < length (payload frame) then Inl PayloadOverrun
         else if \<not> unat i < length (CANTXDSR s) then Inl DataSegmentOverrun
         else tx_copy frame (i + 1) (s\<lparr>CANTXDSR := (CANTXDSR s)[unat i := payload frame ! unat i]\<rparr>))
      else Inr s)"
  by pat_completeness auto
termination
proof (relation "measure (\<lambda>(frame, i, s). unat (length_f frame) - unat i)")
  show "wf (measure (\<lambda>(frame, i, s). unat (length_f frame) - unat i))" by simp
next
  fix frame :: CANframe and i :: byte and s :: state
  assume "i < length_f frame"
  then have "unat (length_f frame) - unat (i + 1) < unat (length_f frame) - unat i"
    by unat_arith
  then show "((frame, i + 1, s\<lparr>CANTXDSR := (CANTXDSR s)[unat i := payload frame ! unat i]\<rparr>),
              (frame, i, s)) \<in> measure (\<lambda>(frame, i, s). unat (length_f frame) - unat i)"
    by simp
qed

declare tx_copy.simps [simp del]

text \<open>
  \<^verbatim>\<open>CANsend\<close>. The function works on the caller's frame through a pointer and assigns
  to \<^verbatim>\<open>frame->length\<close>, so the frame is returned with the status and the state. The
  last loop polls \<^verbatim>\<open>CANTFLG\<close>; \<open>flg n\<close> is what the \<open>n\<close>-th poll reads.
\<close>

definition CANsend ::
  "(nat \<Rightarrow> byte) \<Rightarrow> state \<Rightarrow> CANframe \<Rightarrow> (fault + byte \<times> state \<times> CANframe) option" where
  "CANsend flg s frame =
     (if CANTFLG_TXE s = 0 then Some (Inr (1, s, frame))
      else
        let s1 = write_CANTBSEL (CANTFLG s) s;
            txbuffer = read_CANTBSEL s1;
            idr = (push_bit (5 + 16) (ucast (id_f frame)) :: dword);
            s2 = s1\<lparr>CANTXIDR0 := ucast (drop_bit 24 idr), CANTXIDR1 := ucast (drop_bit 16 idr),
                    CANTXIDR2 := ucast (drop_bit 8 idr), CANTXIDR3 := ucast idr\<rparr>;
            frame1 = (if length_f frame > 8 then frame\<lparr>length_f := 8\<rparr> else frame)
        in case tx_copy frame1 0 s2 of
             Inl f \<Rightarrow> Some (Inl f)
           | Inr s3 \<Rightarrow>
               let s4 = s3\<lparr>CANTXDLR := length_f frame1\<rparr>;
                   s5 = s4\<lparr>CANTXTBPR := priority frame1\<rparr>;
                   s6 = write_CANTFLG txbuffer s5
               in (case spin_while (\<lambda>f. f AND txbuffer \<noteq> txbuffer) flg 0 of
                     None \<Rightarrow> None
                   | Some n \<Rightarrow> Some (Inr (0, s6\<lparr>CANTFLG := flg n\<rparr>, frame1))))"

text \<open>The parts of a result of \<^verbatim>\<open>CANsend\<close>.\<close>

definition send_status :: "(fault + byte \<times> state \<times> CANframe) option \<Rightarrow> byte option" where
  "send_status r = (case r of Some (Inr (st, s, f)) \<Rightarrow> Some st | _ \<Rightarrow> None)"

definition send_state :: "(fault + byte \<times> state \<times> CANframe) option \<Rightarrow> state option" where
  "send_state r = (case r of Some (Inr (st, s, f)) \<Rightarrow> Some s | _ \<Rightarrow> None)"

definition send_frame :: "(fault + byte \<times> state \<times> CANframe) option \<Rightarrow> CANframe option" where
  "send_frame r = (case r of Some (Inr (st, s, f)) \<Rightarrow> Some f | _ \<Rightarrow> None)"

section \<open>The driver in its environment\<close>

text \<open>
  The C start-up code gives the two static variables their initial values,
  \<^verbatim>\<open>rxbuffer[PAYLOAD_SIZE] = {0}\<close> and \<^verbatim>\<open>data_available_flag = 0\<close>, whatever the
  registers hold.
\<close>

definition startup :: "state \<Rightarrow> state" where
  "startup s = s\<lparr>rxbuffer := replicate (unat PAYLOAD_SIZE) 0, data_available_flag := 0\<rparr>"

text \<open>
  The hardware presents a received frame in the receive registers (descriptor \<open>dlr\<close>,
  data segment registers \<open>dsr\<close>) and sets \<^verbatim>\<open>RXF\<close>, which requests the receive
  interrupt.
\<close>

definition hw_receive :: "byte \<Rightarrow> byte list \<Rightarrow> state \<Rightarrow> state" where
  "hw_receive dlr dsr s =
     s\<lparr>CANRXDLR := dlr, CANRXDSR := dsr, CANRFLG := CANRFLG s OR CANRFLG_RXF_MASK\<rparr>"

text \<open>
  One operation of the driver, run to its end on the state: a call of one of the five
  functions by the application, or the reception of a frame with the handler run on it.
  The result is \<open>None\<close> when the operation faults or never returns.
\<close>

datatype call =
    Call_CANinit word16 "nat \<Rightarrow> bool"
  | Call_CANsend CANframe "nat \<Rightarrow> byte"
  | Call_CANget dataMessage
  | Call_data_available
  | Call_data_used
  | Interrupt byte "byte list"

fun exec :: "call \<Rightarrow> state \<Rightarrow> state option" where
  "exec (Call_CANinit id_w ack) s = CANinit ack s id_w"
| "exec (Call_CANsend frame flg) s = send_state (CANsend flg s frame)"
| "exec (Call_CANget message) s = Some (snd (CANget s message))"
| "exec Call_data_available s = Some s"
| "exec Call_data_used s = Some (data_used s)"
| "exec (Interrupt dlr dsr) s =
     (if length dsr = 8 then
        (case CANreceiveISR (hw_receive dlr dsr s) of Inl f \<Rightarrow> None | Inr s' \<Rightarrow> Some s')
      else None)"

fun exec_all :: "call list \<Rightarrow> state \<Rightarrow> state option" where
  "exec_all [] s = Some s"
| "exec_all (c # cs) s = (case exec c s of None \<Rightarrow> None | Some s' \<Rightarrow> exec_all cs s')"

section \<open>\<^verbatim>\<open>CANget\<close> step by step, with the receive interrupt\<close>

text \<open>
  To let the handler run in the middle of \<^verbatim>\<open>CANget\<close>, the function is cut into its
  steps: \<^verbatim>\<open>DisableInterrupts\<close>, one step for each test of the loop condition with the
  loop body behind it, and \<^verbatim>\<open>EnableInterrupts\<close>. A configuration is the program point,
  the caller's message and the state.
\<close>

datatype pc = AtDisable | InLoop byte | AtEnable | Returned

type_synonym config = "pc \<times> dataMessage \<times> state"

fun get_step :: "config \<Rightarrow> config" where
  "get_step (AtDisable, message, s) = (InLoop 0, message, s\<lparr>I_mask := True\<rparr>)"
| "get_step (InLoop i, message, s) =
     (if i < PAYLOAD_SIZE then (InLoop (i + 1), message[unat i := rxbuffer s ! unat i], s)
      else (AtEnable, message, s))"
| "get_step (AtEnable, message, s) = (Returned, message, s\<lparr>I_mask := False\<rparr>)"
| "get_step (Returned, message, s) = (Returned, message, s)"

text \<open>
  An interleaving is a list of events: a step of \<^verbatim>\<open>CANget\<close>, or a frame that arrives
  and requests the receive interrupt. The CPU takes a maskable interrupt only while the
  mask is clear, and then the handler runs to its end before the interrupted code goes
  on; while the mask is set the request has to wait, and the handler does not run.
\<close>

datatype event = Step | Irq byte "byte list"

fun run :: "event list \<Rightarrow> config \<Rightarrow> fault + config" where
  "run [] c = Inr c"
| "run (Step # es) c = run es (get_step c)"
| "run (Irq dlr dsr # es) (p, message, s) =
     (if I_mask s then run es (p, message, s)
      else case CANreceiveISR (hw_receive dlr dsr s) of
             Inl f \<Rightarrow> Inl f
           | Inr s' \<Rightarrow> run es (p, message, s'))"

text \<open>The message that the caller holds if the run has ended with \<^verbatim>\<open>CANget\<close> returned.\<close>

fun returned_message :: "fault + config \<Rightarrow> dataMessage option" where
  "returned_message (Inr (Returned, message, s)) = Some message"
| "returned_message r = None"

section \<open>Concrete hardware for the examples\<close>

text \<open>
  The module after reset as far as the driver sees it: everything off, the three
  transmit buffers empty. The static variables hold their initial values.
\<close>

definition power_on :: state where
  "power_on =
     \<lparr>rxbuffer = [0, 0, 0, 0, 0, 0, 0, 0], data_available_flag = 0, I_mask = False,
      CANCTL1_CANE = False, CANCTL0_INITRQ = False, CANCTL1_INITAK = False,
      CANCTL0_TIME = False, CANCTL1_LISTEN = True, CANCTL1_LOOPB = False,
      clk_src = 0, prescale = 0, time_seg1 = 0, time_seg2 = 0, jump_width = 0,
      sample_bits = 0, acc_mode = 0,
      CANIDMR0 = 0, CANIDMR1 = 0, CANIDAR0 = 0, CANIDAR1 = 0,
      CANRIER_RXFIE = False, CANRFLG = 0, CANTFLG = 7, CANTBSEL = 0,
      CANTXIDR0 = 0, CANTXIDR1 = 0, CANTXIDR2 = 0, CANTXIDR3 = 0,
      CANTXDSR = [0, 0, 0, 0, 0, 0, 0, 0], CANTXDLR = 0, CANTXTBPR = 0,
      CANTXTSRH = 0, CANTXTSRL = 0,
      CANRXDSR = [0, 0, 0, 0, 0, 0, 0, 0], CANRXDLR = 0\<rparr>"

text \<open>Hardware that acknowledges the initialisation request at the first poll and its
  withdrawal at the second.\<close>

definition ack_at_once :: "nat \<Rightarrow> bool" where
  "ack_at_once n = (n = 0)"

text \<open>Hardware that has sent the frame when \<^verbatim>\<open>CANTFLG\<close> is polled for the first time.\<close>

definition sent_at_once :: "nat \<Rightarrow> byte" where
  "sent_at_once n = 7"

text \<open>Hardware that never completes a transmission.\<close>

definition never_sent :: "nat \<Rightarrow> byte" where
  "never_sent n = 0"

section \<open>Busy waiting returns when the hardware answers\<close>

lemma spin_while_terminates:
  "\<not> c (rd k) \<Longrightarrow> n \<le> k \<Longrightarrow>
   \<exists>m. spin_while c rd n = Some m \<and> n \<le> m \<and> m \<le> k \<and> \<not> c (rd m)"
proof (induction "k - n" arbitrary: n)
  case 0
  then have "n = k" by simp
  with "0.prems" have "spin_while c rd n = Some n" by (subst spin_while.simps) simp
  with \<open>n = k\<close> "0.prems" show ?case by simp
next
  case (Suc d)
  show ?case
  proof (cases "c (rd n)")
    case False
    then have "spin_while c rd n = Some n" by (subst spin_while.simps) simp
    with False Suc.prems show ?thesis by simp
  next
    case True
    from Suc.hyps(2) have "d = k - Suc n" "Suc n \<le> k" by simp_all
    from Suc.hyps(1)[OF this(1) Suc.prems(1) this(2)]
    obtain m where m: "spin_while c rd (Suc n) = Some m" "Suc n \<le> m" "m \<le> k" "\<not> c (rd m)"
      by blast
    from True m(1) have "spin_while c rd n = Some m" by (subst spin_while.simps) simp
    with m show ?thesis by auto
  qed
qed

section \<open>Properties of the receive path\<close>

lemma rx_copy_ok:
  "i \<le> len \<Longrightarrow> len \<le> PAYLOAD_SIZE \<Longrightarrow>
   \<exists>R. rx_copy len i s = Inr (s\<lparr>rxbuffer := R\<rparr>) \<and>
        length R = length (rxbuffer s) \<and>
        (\<forall>k < length (rxbuffer s). R ! k =
           (if unat i \<le> k \<and> k < unat len then CANRXDSR s ! k else rxbuffer s ! k))"
proof (induction len i s rule: rx_copy.induct)
  case (1 len i s)
  show ?case
  proof (cases "i < len")
    case False
    with "1.prems" have "i = len" by simp
    then have "rx_copy len i s = Inr (s\<lparr>rxbuffer := rxbuffer s\<rparr>)"
      by (subst rx_copy.simps) simp
    moreover have "\<forall>k < length (rxbuffer s). rxbuffer s ! k =
           (if unat i \<le> k \<and> k < unat len then CANRXDSR s ! k else rxbuffer s ! k)"
      using \<open>i = len\<close> by auto
    ultimately show ?thesis by blast
  next
    case True
    with "1.prems" have lt: "i < PAYLOAD_SIZE" by simp
    from True have suc: "unat (i + 1) = Suc (unat i)" by unat_arith
    from True have le: "i + 1 \<le> len" by (rule inc_le)
    from True have ilen: "unat i < unat len" by (simp add: word_less_nat_alt)
    let ?s1 = "s\<lparr>rxbuffer := (rxbuffer s)[unat i := CANRXDSR s ! unat i]\<rparr>"
    from "1.IH"[OF True lt le "1.prems"(2)]
    obtain R where R: "rx_copy len (i + 1) ?s1 = Inr (?s1\<lparr>rxbuffer := R\<rparr>)"
        "length R = length (rxbuffer ?s1)"
        "\<forall>k < length (rxbuffer ?s1). R ! k =
           (if unat (i + 1) \<le> k \<and> k < unat len then CANRXDSR ?s1 ! k else rxbuffer ?s1 ! k)"
      by blast
    have a: "rx_copy len i s = Inr (s\<lparr>rxbuffer := R\<rparr>)"
      using True lt R(1) by (subst rx_copy.simps) simp
    have c: "length R = length (rxbuffer s)" using R(2) by simp
    have d: "R ! k = (if unat i \<le> k \<and> k < unat len then CANRXDSR s ! k else rxbuffer s ! k)"
      if "k < length (rxbuffer s)" for k
    proof -
      from that R(3) have e: "R ! k =
           (if Suc (unat i) \<le> k \<and> k < unat len then CANRXDSR s ! k
            else (rxbuffer s)[unat i := CANRXDSR s ! unat i] ! k)"
        by (simp add: suc)
      show ?thesis
      proof (cases "k = unat i")
        case True
        with e that ilen show ?thesis by simp
      next
        case False
        then have "(Suc (unat i) \<le> k) = (unat i \<le> k)" by arith
        with e that False show ?thesis by simp
      qed
    qed
    from a c d show ?thesis by blast
  qed
qed

lemma get_copy_nth:
  "length message = length (rxbuffer s) \<Longrightarrow>
   length (get_copy s i message) = length message \<and>
   (\<forall>k < length message. get_copy s i message ! k =
      (if unat i \<le> k \<and> k < unat PAYLOAD_SIZE then rxbuffer s ! k else message ! k))"
proof (induction s i message rule: get_copy.induct)
  case (1 s i message)
  show ?case
  proof (cases "i < PAYLOAD_SIZE")
    case False
    then have "unat PAYLOAD_SIZE \<le> unat i" by (simp add: word_less_nat_alt)
    with False show ?thesis by (subst get_copy.simps, subst get_copy.simps) auto
  next
    case True
    from True have suc: "unat (i + 1) = Suc (unat i)" by unat_arith
    from True have lt: "unat i < unat PAYLOAD_SIZE" by (simp add: word_less_nat_alt)
    let ?m = "message[unat i := rxbuffer s ! unat i]"
    have "length ?m = length (rxbuffer s)" using "1.prems" by simp
    from "1.IH"[OF True this]
    have ih: "length (get_copy s (i + 1) ?m) = length ?m"
      "\<forall>k < length ?m. get_copy s (i + 1) ?m ! k =
         (if unat (i + 1) \<le> k \<and> k < unat PAYLOAD_SIZE then rxbuffer s ! k else ?m ! k)"
      by blast+
    have eq: "get_copy s i message = get_copy s (i + 1) ?m"
      using True by (subst get_copy.simps) simp
    have "get_copy s i message ! k =
        (if unat i \<le> k \<and> k < unat PAYLOAD_SIZE then rxbuffer s ! k else message ! k)"
      if "k < length message" for k
    proof (cases "k = unat i")
      case True
      with ih(2) that lt show ?thesis unfolding eq suc by simp
    next
      case False
      then have "(Suc (unat i) \<le> k) = (unat i \<le> k)" by arith
      with ih(2) that False show ?thesis unfolding eq suc by simp
    qed
    with ih(1) eq show ?thesis by simp
  qed
qed

lemma get_copy_all:
  assumes "length message = unat PAYLOAD_SIZE" "length (rxbuffer s) = unat PAYLOAD_SIZE"
  shows "get_copy s 0 message = rxbuffer s"
proof (rule nth_equalityI)
  from assms get_copy_nth[of message s 0]
  show "length (get_copy s 0 message) = length (rxbuffer s)" by simp
next
  fix k assume "k < length (get_copy s 0 message)"
  with assms get_copy_nth[of message s 0]
  show "get_copy s 0 message ! k = rxbuffer s ! k" by simp
qed

lemma CANget_message:
  assumes "length message = unat PAYLOAD_SIZE" "length (rxbuffer s) = unat PAYLOAD_SIZE"
  shows "fst (CANget s message) = rxbuffer s"
  using get_copy_all[of message "s\<lparr>I_mask := True\<rparr>"] assms
  by (simp add: CANget_def Let_def)

lemma CANreceiveISR_ok:
  assumes wf: "wf_state s" and L: "CANRXDLR_DLC s \<le> 8"
  shows "\<exists>R. CANreceiveISR s =
            Inr (s\<lparr>rxbuffer := R, data_available_flag := 1,
                    CANRFLG := CANRFLG s AND NOT CANRFLG_RXF_MASK\<rparr>) \<and>
           length R = 8 \<and>
           take (unat (CANRXDLR_DLC s)) R = take (unat (CANRXDLR_DLC s)) (CANRXDSR s) \<and>
           drop (unat (CANRXDLR_DLC s)) R = drop (unat (CANRXDLR_DLC s)) (rxbuffer s)"
proof -
  let ?L = "CANRXDLR_DLC s"
  from L have le: "?L \<le> PAYLOAD_SIZE" by (simp add: PAYLOAD_SIZE_def)
  have z: "(0::byte) \<le> ?L" by simp
  from rx_copy_ok[OF z le, of s]
  obtain R where R: "rx_copy ?L 0 s = Inr (s\<lparr>rxbuffer := R\<rparr>)"
      "length R = length (rxbuffer s)"
      "\<forall>k < length (rxbuffer s). R ! k =
           (if unat (0::byte) \<le> k \<and> k < unat ?L then CANRXDSR s ! k else rxbuffer s ! k)"
    by blast
  have isr: "CANreceiveISR s = Inr (s\<lparr>rxbuffer := R, data_available_flag := 1,
                    CANRFLG := CANRFLG s AND NOT CANRFLG_RXF_MASK\<rparr>)"
    using R(1) by (simp add: CANreceiveISR_def Let_def)
  have len8: "length R = 8" "length (rxbuffer s) = 8" "length (CANRXDSR s) = 8"
    using wf R(2) by (simp_all add: wf_state_def PAYLOAD_SIZE_def)
  have L8: "unat ?L \<le> 8" using L by (simp add: word_le_nat_alt)
  have t: "take (unat ?L) R = take (unat ?L) (CANRXDSR s)"
  proof (rule nth_equalityI)
    show "length (take (unat ?L) R) = length (take (unat ?L) (CANRXDSR s))"
      using len8 by simp
  next
    fix k assume "k < length (take (unat ?L) R)"
    then have "k < unat ?L" "k < 8" using len8 L8 by simp_all
    with R(3) len8 show "take (unat ?L) R ! k = take (unat ?L) (CANRXDSR s) ! k" by simp
  qed
  have d: "drop (unat ?L) R = drop (unat ?L) (rxbuffer s)"
  proof (rule nth_equalityI)
    show "length (drop (unat ?L) R) = length (drop (unat ?L) (rxbuffer s))"
      using len8 by simp
  next
    fix k assume "k < length (drop (unat ?L) R)"
    then have "unat ?L + k < 8" using len8 by simp
    with R(3) len8 L8 show "drop (unat ?L) R ! k = drop (unat ?L) (rxbuffer s) ! k" by simp
  qed
  from isr len8(1) t d show ?thesis by blast
qed

text \<open>
  Claim C1. A message of length \<open>L\<close> with \<open>0 \<le> L \<le> 8\<close> stands in the receive
  descriptor and the receive data registers. Then \<^verbatim>\<open>CANreceiveISR\<close> returns without a
  fault, and afterwards \<^verbatim>\<open>data_available\<close> returns a non-zero value (true), the first
  \<open>L\<close> bytes of the message that \<^verbatim>\<open>CANget\<close> yields are the first \<open>L\<close> bytes of the data
  registers in their order, and the bytes from index \<open>L\<close> on are those that the buffer
  held before the interrupt: they are not set to zero.
\<close>

theorem handle_receive_delivers:
  assumes wf: "wf_state s"
    and msg: "length message = unat PAYLOAD_SIZE"
    and L: "CANRXDLR_DLC s = L" "L \<le> 8"
  shows "\<exists>s'. CANreceiveISR s = Inr s' \<and>
           data_available s' \<noteq> 0 \<and>
           take (unat L) (fst (CANget s' message)) = take (unat L) (CANRXDSR s) \<and>
           drop (unat L) (fst (CANget s' message)) = drop (unat L) (rxbuffer s)"
proof -
  from L have "CANRXDLR_DLC s \<le> 8" by simp
  from CANreceiveISR_ok[OF wf this] L(1)
  obtain R where R: "CANreceiveISR s =
            Inr (s\<lparr>rxbuffer := R, data_available_flag := 1,
                    CANRFLG := CANRFLG s AND NOT CANRFLG_RXF_MASK\<rparr>)"
      "length R = 8" "take (unat L) R = take (unat L) (CANRXDSR s)"
      "drop (unat L) R = drop (unat L) (rxbuffer s)"
    by blast
  let ?s' = "s\<lparr>rxbuffer := R, data_available_flag := 1,
                    CANRFLG := CANRFLG s AND NOT CANRFLG_RXF_MASK\<rparr>"
  have get: "fst (CANget ?s' message) = R"
    using CANget_message[of message ?s'] msg R(2) by (simp add: PAYLOAD_SIZE_def)
  have av: "data_available ?s' \<noteq> 0" by (simp add: data_available_def)
  show ?thesis
  proof (intro exI conjI)
    show "CANreceiveISR s = Inr ?s'" by (rule R(1))
    show "data_available ?s' \<noteq> 0" by (rule av)
    show "take (unat L) (fst (CANget ?s' message)) = take (unat L) (CANRXDSR s)"
      unfolding get by (rule R(3))
    show "drop (unat L) (fst (CANget ?s' message)) = drop (unat L) (rxbuffer s)"
      unfolding get by (rule R(4))
  qed
qed

theorem handle_receive_delivers_witness:
  "wf_state (hw_receive 3 [0x11, 0x22, 0x33, 0x44, 0x55, 0x66, 0x77, 0x88]
               (power_on\<lparr>rxbuffer := [1, 2, 3, 4, 5, 6, 7, 8]\<rparr>)) \<and>
   length [0, 0, 0, 0, 0, 0, 0, 0 :: byte] = unat PAYLOAD_SIZE \<and>
   CANRXDLR_DLC (hw_receive 3 [0x11, 0x22, 0x33, 0x44, 0x55, 0x66, 0x77, 0x88]
               (power_on\<lparr>rxbuffer := [1, 2, 3, 4, 5, 6, 7, 8]\<rparr>)) = 3 \<and>
   (3 :: byte) \<le> 8 \<and>
   (\<exists>s'. CANreceiveISR (hw_receive 3 [0x11, 0x22, 0x33, 0x44, 0x55, 0x66, 0x77, 0x88]
               (power_on\<lparr>rxbuffer := [1, 2, 3, 4, 5, 6, 7, 8]\<rparr>)) = Inr s' \<and>
         data_available s' \<noteq> 0 \<and>
         take 3 (fst (CANget s' [0, 0, 0, 0, 0, 0, 0, 0])) = [0x11, 0x22, 0x33] \<and>
         drop 3 (fst (CANget s' [0, 0, 0, 0, 0, 0, 0, 0])) = [4, 5, 6, 7, 8])"
proof -
  let ?s = "hw_receive 3 [0x11, 0x22, 0x33, 0x44, 0x55, 0x66, 0x77, 0x88]
               (power_on\<lparr>rxbuffer := [1, 2, 3, 4, 5, 6, 7, 8]\<rparr>)"
  have wf: "wf_state ?s"
    by (simp add: wf_state_def hw_receive_def power_on_def PAYLOAD_SIZE_def)
  have msg: "length [0, 0, 0, 0, 0, 0, 0, 0 :: byte] = unat PAYLOAD_SIZE"
    by (simp add: PAYLOAD_SIZE_def)
  have dlc: "CANRXDLR_DLC ?s = 3"
    by (simp add: CANRXDLR_DLC_def hw_receive_def power_on_def)
  have le: "(3 :: byte) \<le> 8" by simp
  have regs: "CANRXDSR ?s = [0x11, 0x22, 0x33, 0x44, 0x55, 0x66, 0x77, 0x88]"
    "rxbuffer ?s = [1, 2, 3, 4, 5, 6, 7, 8]"
    by (simp_all add: hw_receive_def power_on_def)
  from handle_receive_delivers [OF wf msg dlc le] wf msg dlc le
  show ?thesis unfolding regs by simp
qed

section \<open>Properties of the transmit path\<close>

lemma tx_copy_ok:
  "i \<le> length_f frame \<Longrightarrow> unat (length_f frame) \<le> length (payload frame) \<Longrightarrow>
   unat (length_f frame) \<le> length (CANTXDSR s) \<Longrightarrow>
   \<exists>D. tx_copy frame i s = Inr (s\<lparr>CANTXDSR := D\<rparr>) \<and>
        length D = length (CANTXDSR s) \<and>
        (\<forall>k < length (CANTXDSR s). D ! k =
           (if unat i \<le> k \<and> k < unat (length_f frame) then payload frame ! k
            else CANTXDSR s ! k))"
proof (induction frame i s rule: tx_copy.induct)
  case (1 frame i s)
  show ?case
  proof (cases "i < length_f frame")
    case False
    with "1.prems" have eq: "i = length_f frame" by simp
    then have "tx_copy frame i s = Inr (s\<lparr>CANTXDSR := CANTXDSR s\<rparr>)"
      by (subst tx_copy.simps) simp
    moreover have "\<forall>k < length (CANTXDSR s). CANTXDSR s ! k =
           (if unat i \<le> k \<and> k < unat (length_f frame) then payload frame ! k
            else CANTXDSR s ! k)"
      using eq by auto
    ultimately show ?thesis by blast
  next
    case True
    from True have suc: "unat (i + 1) = Suc (unat i)" by unat_arith
    from True have le: "i + 1 \<le> length_f frame" by (rule inc_le)
    from True have ilen: "unat i < unat (length_f frame)" by (simp add: word_less_nat_alt)
    with "1.prems" have inp: "unat i < length (payload frame)"
      and ind: "unat i < length (CANTXDSR s)" by simp_all
    let ?s1 = "s\<lparr>CANTXDSR := (CANTXDSR s)[unat i := payload frame ! unat i]\<rparr>"
    have p3: "unat (length_f frame) \<le> length (CANTXDSR ?s1)" using "1.prems"(3) by simp
    from inp have n1: "\<not> \<not> unat i < length (payload frame)" by simp
    from ind have n2: "\<not> \<not> unat i < length (CANTXDSR s)" by simp
    from "1.IH"[OF True n1 n2 le "1.prems"(2) p3]
    obtain D where D: "tx_copy frame (i + 1) ?s1 = Inr (?s1\<lparr>CANTXDSR := D\<rparr>)"
        "length D = length (CANTXDSR ?s1)"
        "\<forall>k < length (CANTXDSR ?s1). D ! k =
           (if unat (i + 1) \<le> k \<and> k < unat (length_f frame) then payload frame ! k
            else CANTXDSR ?s1 ! k)"
      by blast
    have a: "tx_copy frame i s = Inr (s\<lparr>CANTXDSR := D\<rparr>)"
      using True inp ind D(1) by (subst tx_copy.simps) simp
    have c: "length D = length (CANTXDSR s)" using D(2) by simp
    have d: "D ! k = (if unat i \<le> k \<and> k < unat (length_f frame) then payload frame ! k
                      else CANTXDSR s ! k)"
      if "k < length (CANTXDSR s)" for k
    proof -
      from that D(3) have e: "D ! k =
           (if Suc (unat i) \<le> k \<and> k < unat (length_f frame) then payload frame ! k
            else (CANTXDSR s)[unat i := payload frame ! unat i] ! k)"
        by (simp add: suc)
      show ?thesis
      proof (cases "k = unat i")
        case True
        with e that ilen show ?thesis by simp
      next
        case False
        then have "(Suc (unat i) \<le> k) = (unat i \<le> k)" by arith
        with e that False show ?thesis by simp
      qed
    qed
    from a c d show ?thesis by blast
  qed
qed

lemma reg16_bytes: "reg16 (hi_byte w) (lo_byte w) = w"
  unfolding reg16_def hi_byte_def lo_byte_def
  by (rule bit_word_eqI) (auto simp: bit_simps)

lemma reg32_bytes:
  "reg32 (ucast (drop_bit 24 w)) (ucast (drop_bit 16 w)) (ucast (drop_bit 8 w)) (ucast w) = w"
proof (rule bit_word_eqI)
  fix n assume "n < LENGTH(32)"
  then consider "n < 8" | "8 \<le> n" "n < 16" | "16 \<le> n" "n < 24" | "24 \<le> n" "n < 32"
    by fastforce
  then show "bit (reg32 (ucast (drop_bit 24 w)) (ucast (drop_bit 16 w))
                   (ucast (drop_bit 8 w)) (ucast w)) n = bit w n"
    unfolding reg32_def by cases (auto simp: bit_simps)
qed

lemma txid_aligned:
  fixes idw :: word16
  defines "idr \<equiv> (push_bit (5 + 16) (ucast idw) :: dword)"
  shows "reg16 (ucast (drop_bit 24 idr)) (ucast (drop_bit 16 idr)) = push_bit 5 idw"
    and "(ucast (drop_bit 8 idr) :: byte) = 0"
    and "(ucast idr :: byte) = 0"
  unfolding idr_def reg16_def
  by (rule bit_word_eqI; auto simp: bit_simps)+

lemma CANsend_free:
  assumes free: "CANTFLG_TXE s \<noteq> 0"
    and dsr: "length (CANTXDSR s) = 8"
    and pay: "unat (min (length_f frame) 8) \<le> length (payload frame)"
    and fin: "flg k AND read_CANTBSEL (write_CANTBSEL (CANTFLG s) s) =
              read_CANTBSEL (write_CANTBSEL (CANTFLG s) s)"
  shows "\<exists>D n. CANsend flg s frame =
           Some (Inr (0,
             s\<lparr>CANTBSEL := CANTFLG s AND 0x07,
               CANTXIDR0 := ucast (drop_bit 24 (push_bit (5 + 16) (ucast (id_f frame)) :: dword)),
               CANTXIDR1 := ucast (drop_bit 16 (push_bit (5 + 16) (ucast (id_f frame)) :: dword)),
               CANTXIDR2 := ucast (drop_bit 8 (push_bit (5 + 16) (ucast (id_f frame)) :: dword)),
               CANTXIDR3 := ucast (push_bit (5 + 16) (ucast (id_f frame)) :: dword),
               CANTXDSR := D,
               CANTXDLR := min (length_f frame) 8,
               CANTXTBPR := priority frame,
               CANTFLG := flg n\<rparr>,
             frame\<lparr>length_f := min (length_f frame) 8\<rparr>)) \<and>
         length D = 8 \<and>
         (\<forall>j < 8. D ! j = (if j < unat (min (length_f frame) 8) then payload frame ! j
                             else CANTXDSR s ! j)) \<and>
         spin_while (\<lambda>f. f AND read_CANTBSEL (write_CANTBSEL (CANTFLG s) s) \<noteq>
                          read_CANTBSEL (write_CANTBSEL (CANTFLG s) s)) flg 0 = Some n"
proof -
  define txbuffer where "txbuffer = read_CANTBSEL (write_CANTBSEL (CANTFLG s) s)"
  define idr where "idr = (push_bit (5 + 16) (ucast (id_f frame)) :: dword)"
  define s2 where "s2 = (write_CANTBSEL (CANTFLG s) s)
     \<lparr>CANTXIDR0 := ucast (drop_bit 24 idr), CANTXIDR1 := ucast (drop_bit 16 idr),
      CANTXIDR2 := ucast (drop_bit 8 idr), CANTXIDR3 := ucast idr\<rparr>"
  define frame1 where "frame1 = (if length_f frame > 8 then frame\<lparr>length_f := 8\<rparr> else frame)"
  have f1: "frame1 = frame\<lparr>length_f := min (length_f frame) 8\<rparr>"
    by (simp add: frame1_def min_def not_less)
  have len1: "length_f frame1 = min (length_f frame) 8" and pay1: "payload frame1 = payload frame"
    and pri1: "priority frame1 = priority frame"
    by (simp_all add: f1)
  have le8: "unat (length_f frame1) \<le> 8"
    unfolding len1 by (simp add: min_def word_le_nat_alt not_le)
  have dsr2: "CANTXDSR s2 = CANTXDSR s"
    by (simp add: s2_def write_CANTBSEL_def)
  have "0 \<le> length_f frame1" by simp
  moreover have "unat (length_f frame1) \<le> length (payload frame1)"
    using pay by (simp add: len1 pay1)
  moreover have "unat (length_f frame1) \<le> length (CANTXDSR s2)"
    using le8 dsr by (simp add: dsr2)
  ultimately obtain D where D: "tx_copy frame1 0 s2 = Inr (s2\<lparr>CANTXDSR := D\<rparr>)"
      "length D = length (CANTXDSR s2)"
      "\<forall>j < length (CANTXDSR s2). D ! j =
           (if unat (0::byte) \<le> j \<and> j < unat (length_f frame1) then payload frame1 ! j
            else CANTXDSR s2 ! j)"
    using tx_copy_ok[of 0 frame1 s2] by blast
  from fin have "\<not> (flg k AND txbuffer \<noteq> txbuffer)" by (simp add: txbuffer_def)
  from spin_while_terminates[of "\<lambda>f. f AND txbuffer \<noteq> txbuffer" flg k 0, OF this]
  obtain n where n: "spin_while (\<lambda>f. f AND txbuffer \<noteq> txbuffer) flg 0 = Some n"
      "flg n AND txbuffer = txbuffer"
    by auto
  have send: "CANsend flg s frame =
      Some (Inr (0, (write_CANTFLG txbuffer
                      (s2\<lparr>CANTXDSR := D, CANTXDLR := length_f frame1,
                          CANTXTBPR := priority frame1\<rparr>))\<lparr>CANTFLG := flg n\<rparr>, frame1))"
    using free D(1) n(1)
    unfolding s2_def idr_def txbuffer_def frame1_def
    by (simp add: CANsend_def Let_def)
  have st: "(write_CANTFLG txbuffer
                      (s2\<lparr>CANTXDSR := D, CANTXDLR := length_f frame1,
                          CANTXTBPR := priority frame1\<rparr>))\<lparr>CANTFLG := flg n\<rparr> =
        s\<lparr>CANTBSEL := CANTFLG s AND 0x07,
               CANTXIDR0 := ucast (drop_bit 24 idr),
               CANTXIDR1 := ucast (drop_bit 16 idr),
               CANTXIDR2 := ucast (drop_bit 8 idr),
               CANTXIDR3 := ucast idr,
               CANTXDSR := D,
               CANTXDLR := min (length_f frame) 8,
               CANTXTBPR := priority frame,
               CANTFLG := flg n\<rparr>"
    by (simp add: write_CANTFLG_def s2_def write_CANTBSEL_def len1 pri1)
  have Dlen: "length D = 8" using D(2) dsr by (simp add: dsr2)
  have Dnth: "\<forall>j < 8. D ! j = (if j < unat (min (length_f frame) 8) then payload frame ! j
                             else CANTXDSR s ! j)"
    using D(3) dsr by (simp add: dsr2 len1 pay1)
  from send have "CANsend flg s frame =
      Some (Inr (0, s\<lparr>CANTBSEL := CANTFLG s AND 0x07,
               CANTXIDR0 := ucast (drop_bit 24 idr),
               CANTXIDR1 := ucast (drop_bit 16 idr),
               CANTXIDR2 := ucast (drop_bit 8 idr),
               CANTXIDR3 := ucast idr,
               CANTXDSR := D,
               CANTXDLR := min (length_f frame) 8,
               CANTXTBPR := priority frame,
               CANTFLG := flg n\<rparr>, frame1))"
    by (simp only: st)
  then have "CANsend flg s frame =
      Some (Inr (0, s\<lparr>CANTBSEL := CANTFLG s AND 0x07,
               CANTXIDR0 := ucast (drop_bit 24 (push_bit (5 + 16) (ucast (id_f frame)) :: dword)),
               CANTXIDR1 := ucast (drop_bit 16 (push_bit (5 + 16) (ucast (id_f frame)) :: dword)),
               CANTXIDR2 := ucast (drop_bit 8 (push_bit (5 + 16) (ucast (id_f frame)) :: dword)),
               CANTXIDR3 := ucast (push_bit (5 + 16) (ucast (id_f frame)) :: dword),
               CANTXDSR := D,
               CANTXDLR := min (length_f frame) 8,
               CANTXTBPR := priority frame,
               CANTFLG := flg n\<rparr>, frame\<lparr>length_f := min (length_f frame) 8\<rparr>))"
    unfolding idr_def f1 .
  with Dlen Dnth n(1)[unfolded txbuffer_def] show ?thesis by blast
qed

lemma CANTFLG_TXE_zero_iff:
  "CANTFLG_TXE s = 0 \<longleftrightarrow> \<not> bit (CANTFLG s) 0 \<and> \<not> bit (CANTFLG s) 1 \<and> \<not> bit (CANTFLG s) 2"
proof -
  have *: "(n < 3) = (n = 0 \<or> n = 1 \<or> n = 2)" for n :: nat by arith
  have "(7 :: byte) = mask 3" by (simp add: mask_eq_exp_minus_1)
  then have "CANTFLG_TXE s = take_bit 3 (CANTFLG s)"
    by (simp add: CANTFLG_TXE_def take_bit_eq_mask)
  also have "\<dots> = 0 \<longleftrightarrow> (\<forall>n < 3. \<not> bit (CANTFLG s) n)"
    by (auto simp: bit_eq_iff bit_simps)
  finally show ?thesis by (auto simp: *)
qed

lemma CANsend_not_rejected:
  assumes "CANTFLG_TXE s \<noteq> 0"
  shows "send_status (CANsend flg s frame) \<noteq> Some 1"
  using assms
  by (auto simp: send_status_def CANsend_def Let_def split: sum.splits option.splits)

text \<open>
  Claim C2. When all transmit buffers are occupied at the call, that is when the field
  \<^verbatim>\<open>CANTFLG_TXE\<close> of the three buffer-empty flags is zero, \<^verbatim>\<open>CANsend\<close> returns the
  non-zero status 1 at once, whatever the frame and whatever the hardware would show
  later, and leaves every register (the whole state) and the frame as they were. The
  test is one test of the combined field: it holds exactly when each of the three flags
  is clear, and a call with any flag set is not rejected.
\<close>

theorem send_rejects_when_full:
  "(CANTFLG_TXE s = 0 \<longrightarrow> CANsend flg s frame = Some (Inr (1, s, frame)) \<and> (1 :: byte) \<noteq> 0) \<and>
   (CANTFLG_TXE s \<noteq> 0 \<longrightarrow> send_status (CANsend flg s frame) \<noteq> Some 1) \<and>
   (CANTFLG_TXE s = 0 \<longleftrightarrow>
      \<not> bit (CANTFLG s) 0 \<and> \<not> bit (CANTFLG s) 1 \<and> \<not> bit (CANTFLG s) 2)"
proof (intro conjI impI)
  assume "CANTFLG_TXE s = 0"
  then show "CANsend flg s frame = Some (Inr (1, s, frame))" by (simp add: CANsend_def)
next
  show "(1 :: byte) \<noteq> 0" by simp
next
  assume "CANTFLG_TXE s \<noteq> 0"
  then show "send_status (CANsend flg s frame) \<noteq> Some 1" by (rule CANsend_not_rejected)
next
  show "CANTFLG_TXE s = 0 \<longleftrightarrow>
      \<not> bit (CANTFLG s) 0 \<and> \<not> bit (CANTFLG s) 1 \<and> \<not> bit (CANTFLG s) 2"
    by (rule CANTFLG_TXE_zero_iff)
qed

theorem send_rejects_when_full_witness:
  "CANTFLG_TXE (power_on\<lparr>CANTFLG := 0\<rparr>) = 0 \<and>
   CANsend never_sent (power_on\<lparr>CANTFLG := 0\<rparr>)
      \<lparr>id_f = 0x123, payload = [1, 2, 3], length_f = 3, priority = 0\<rparr> =
     Some (Inr (1, power_on\<lparr>CANTFLG := 0\<rparr>,
                \<lparr>id_f = 0x123, payload = [1, 2, 3], length_f = 3, priority = 0\<rparr>)) \<and>
   CANTFLG_TXE (power_on\<lparr>CANTFLG := 4\<rparr>) \<noteq> 0 \<and>
   send_status (CANsend sent_at_once (power_on\<lparr>CANTFLG := 4\<rparr>)
      \<lparr>id_f = 0x123, payload = [1, 2, 3], length_f = 3, priority = 0\<rparr>) \<noteq> Some 1"
proof -
  have full: "CANTFLG_TXE (power_on\<lparr>CANTFLG := 0\<rparr>) = 0"
    by (simp add: CANTFLG_TXE_def)
  have free: "CANTFLG_TXE (power_on\<lparr>CANTFLG := 4\<rparr>) \<noteq> 0"
    by (simp add: CANTFLG_TXE_def)
  from full free
    send_rejects_when_full [of "power_on\<lparr>CANTFLG := 0\<rparr>" never_sent
      "\<lparr>id_f = 0x123, payload = [1, 2, 3], length_f = 3, priority = 0\<rparr>"]
    send_rejects_when_full [of "power_on\<lparr>CANTFLG := 4\<rparr>" sent_at_once
      "\<lparr>id_f = 0x123, payload = [1, 2, 3], length_f = 3, priority = 0\<rparr>"]
  show ?thesis by blast
qed

text \<open>
  Claim C3. The length field of the frame exceeds 8 and a transmit buffer is free. Then
  \<^verbatim>\<open>CANsend\<close> fills the eight data segment registers with the first eight payload
  bytes and writes 8 to the length register. It reads no payload byte at an index of 8
  or more: a payload array of just eight bytes causes no access behind its end, and the
  registers are the same as for the frame whose payload is cut to its first eight bytes.
  The truncation is silent: once the hardware reports the buffer empty again, the
  status returned is 0 (success), and the length field of the frame has become 8.
\<close>

theorem send_truncates_to_eight:
  assumes long: "length_f frame > 8"
    and free: "CANTFLG_TXE s \<noteq> 0"
    and wf: "wf_state s"
    and pay: "8 \<le> length (payload frame)"
    and fin: "flg k AND read_CANTBSEL (write_CANTBSEL (CANTFLG s) s) =
              read_CANTBSEL (write_CANTBSEL (CANTFLG s) s)"
  shows "\<exists>s'. CANsend flg s frame = Some (Inr (0, s', frame\<lparr>length_f := 8\<rparr>)) \<and>
           CANTXDSR s' = take 8 (payload frame) \<and>
           CANTXDLR s' = 8 \<and>
           send_state (CANsend flg s (frame\<lparr>payload := take 8 (payload frame)\<rparr>)) = Some s'"
proof -
  from long have m: "min (length_f frame) 8 = 8" by (auto simp: min_def)
  from wf have dsr: "length (CANTXDSR s) = 8" by (simp add: wf_state_def)
  let ?cut = "frame\<lparr>payload := take 8 (payload frame)\<rparr>"
  from pay have pay1: "unat (min (length_f frame) 8) \<le> length (payload frame)"
    by (simp add: m)
  from pay have pay2: "unat (min (length_f ?cut) 8) \<le> length (payload ?cut)"
    by (simp add: m)
  from CANsend_free[of s frame flg k, OF free dsr pay1 fin]
  obtain D n where D: "CANsend flg s frame =
           Some (Inr (0,
             s\<lparr>CANTBSEL := CANTFLG s AND 0x07,
               CANTXIDR0 := ucast (drop_bit 24 (push_bit (5 + 16) (ucast (id_f frame)) :: dword)),
               CANTXIDR1 := ucast (drop_bit 16 (push_bit (5 + 16) (ucast (id_f frame)) :: dword)),
               CANTXIDR2 := ucast (drop_bit 8 (push_bit (5 + 16) (ucast (id_f frame)) :: dword)),
               CANTXIDR3 := ucast (push_bit (5 + 16) (ucast (id_f frame)) :: dword),
               CANTXDSR := D,
               CANTXDLR := min (length_f frame) 8,
               CANTXTBPR := priority frame,
               CANTFLG := flg n\<rparr>,
             frame\<lparr>length_f := min (length_f frame) 8\<rparr>))"
      "length D = 8"
      "\<forall>j < 8. D ! j = (if j < unat (min (length_f frame) 8) then payload frame ! j
                             else CANTXDSR s ! j)"
      "spin_while (\<lambda>f. f AND read_CANTBSEL (write_CANTBSEL (CANTFLG s) s) \<noteq>
                          read_CANTBSEL (write_CANTBSEL (CANTFLG s) s)) flg 0 = Some n"
    by blast
  have Deq: "D = take 8 (payload frame)"
  proof (rule nth_equalityI)
    show "length D = length (take 8 (payload frame))" using D(2) pay by simp
  next
    fix j assume "j < length D"
    with D(2) have "j < 8" by simp
    with D(3) show "D ! j = take 8 (payload frame) ! j" by (simp add: m)
  qed
  from CANsend_free[of s ?cut flg k, OF free dsr pay2 fin]
  obtain D' n' where D': "CANsend flg s ?cut =
           Some (Inr (0,
             s\<lparr>CANTBSEL := CANTFLG s AND 0x07,
               CANTXIDR0 := ucast (drop_bit 24 (push_bit (5 + 16) (ucast (id_f ?cut)) :: dword)),
               CANTXIDR1 := ucast (drop_bit 16 (push_bit (5 + 16) (ucast (id_f ?cut)) :: dword)),
               CANTXIDR2 := ucast (drop_bit 8 (push_bit (5 + 16) (ucast (id_f ?cut)) :: dword)),
               CANTXIDR3 := ucast (push_bit (5 + 16) (ucast (id_f ?cut)) :: dword),
               CANTXDSR := D',
               CANTXDLR := min (length_f ?cut) 8,
               CANTXTBPR := priority ?cut,
               CANTFLG := flg n'\<rparr>,
             ?cut\<lparr>length_f := min (length_f ?cut) 8\<rparr>))"
      "length D' = 8"
      "\<forall>j < 8. D' ! j = (if j < unat (min (length_f ?cut) 8) then payload ?cut ! j
                             else CANTXDSR s ! j)"
      "spin_while (\<lambda>f. f AND read_CANTBSEL (write_CANTBSEL (CANTFLG s) s) \<noteq>
                          read_CANTBSEL (write_CANTBSEL (CANTFLG s) s)) flg 0 = Some n'"
    by blast
  have D'eq: "D' = take 8 (payload frame)"
  proof (rule nth_equalityI)
    show "length D' = length (take 8 (payload frame))" using D'(2) pay by simp
  next
    fix j assume "j < length D'"
    with D'(2) have "j < 8" by simp
    with D'(3) show "D' ! j = take 8 (payload frame) ! j" by (simp add: m)
  qed
  from D(4) D'(4) have nn: "n' = n" by simp
  let ?s' = "s\<lparr>CANTBSEL := CANTFLG s AND 0x07,
               CANTXIDR0 := ucast (drop_bit 24 (push_bit (5 + 16) (ucast (id_f frame)) :: dword)),
               CANTXIDR1 := ucast (drop_bit 16 (push_bit (5 + 16) (ucast (id_f frame)) :: dword)),
               CANTXIDR2 := ucast (drop_bit 8 (push_bit (5 + 16) (ucast (id_f frame)) :: dword)),
               CANTXIDR3 := ucast (push_bit (5 + 16) (ucast (id_f frame)) :: dword),
               CANTXDSR := take 8 (payload frame),
               CANTXDLR := 8,
               CANTXTBPR := priority frame,
               CANTFLG := flg n\<rparr>"
  have a: "CANsend flg s frame = Some (Inr (0, ?s', frame\<lparr>length_f := 8\<rparr>))"
    using D(1) by (simp add: m Deq)
  have b: "send_state (CANsend flg s ?cut) = Some ?s'"
    using D'(1) by (simp add: m D'eq nn send_state_def)
  have c: "CANTXDSR ?s' = take 8 (payload frame)" by simp
  have d: "CANTXDLR ?s' = 8" by simp
  from a b c d show ?thesis by blast
qed

theorem send_truncates_to_eight_witness:
  "length_f \<lparr>id_f = 0x123, payload = [1, 2, 3, 4, 5, 6, 7, 8], length_f = 12, priority = 0\<rparr> > 8 \<and>
   CANTFLG_TXE power_on \<noteq> 0 \<and> wf_state power_on \<and>
   8 \<le> length (payload \<lparr>id_f = 0x123, payload = [1, 2, 3, 4, 5, 6, 7, 8], length_f = 12,
                           priority = 0\<rparr>) \<and>
   sent_at_once 0 AND read_CANTBSEL (write_CANTBSEL (CANTFLG power_on) power_on) =
     read_CANTBSEL (write_CANTBSEL (CANTFLG power_on) power_on) \<and>
   (\<exists>s'. CANsend sent_at_once power_on
            \<lparr>id_f = 0x123, payload = [1, 2, 3, 4, 5, 6, 7, 8], length_f = 12, priority = 0\<rparr> =
          Some (Inr (0, s', \<lparr>id_f = 0x123, payload = [1, 2, 3, 4, 5, 6, 7, 8], length_f = 8,
                               priority = 0\<rparr>)) \<and>
        CANTXDSR s' = [1, 2, 3, 4, 5, 6, 7, 8] \<and> CANTXDLR s' = 8)"
proof -
  let ?f = "\<lparr>id_f = 0x123, payload = [1, 2, 3, 4, 5, 6, 7, 8], length_f = 12, priority = 0\<rparr>"
  have h1: "length_f ?f > 8" by simp
  have h2: "CANTFLG_TXE power_on \<noteq> 0" by (simp add: CANTFLG_TXE_def power_on_def)
  have h3: "wf_state power_on" by (simp add: wf_state_def power_on_def PAYLOAD_SIZE_def)
  have h4: "8 \<le> length (payload ?f)" by simp
  have h5: "sent_at_once 0 AND read_CANTBSEL (write_CANTBSEL (CANTFLG power_on) power_on) =
     read_CANTBSEL (write_CANTBSEL (CANTFLG power_on) power_on)"
    by (simp add: sent_at_once_def read_CANTBSEL_def write_CANTBSEL_def power_on_def)
  from send_truncates_to_eight [of ?f power_on sent_at_once 0, OF h1 h2 h3 h4 h5]
  have "\<exists>s'. CANsend sent_at_once power_on ?f =
          Some (Inr (0, s', \<lparr>id_f = 0x123, payload = [1, 2, 3, 4, 5, 6, 7, 8], length_f = 8,
                               priority = 0\<rparr>)) \<and>
        CANTXDSR s' = [1, 2, 3, 4, 5, 6, 7, 8] \<and> CANTXDLR s' = 8"
    by simp blast
  with h1 h2 h3 h4 h5 show ?thesis by blast
qed

text \<open>
  Claim C4. A transmit buffer is free. Then \<^verbatim>\<open>CANsend\<close> loads the identifier
  registers with the identifier in hardware alignment: the four registers together hold
  the identifier shifted left by 21, so that the pair \<^verbatim>\<open>CANTXIDR0\<close>,
  \<^verbatim>\<open>CANTXIDR1\<close> holds the identifier shifted left by 5 (\<open>0x123 << 5\<close> for the
  identifier \<open>0x123\<close>). The payload bytes \<open>0 .. min(length, 8) - 1\<close> stand in the data
  segment registers in their order, the registers behind them keep their contents, the
  length register holds the clamped length and the priority register the priority of the
  frame; the call returns 0 once the hardware reports the buffer empty again.
\<close>

theorem send_loads_frame:
  assumes free: "CANTFLG_TXE s \<noteq> 0"
    and wf: "wf_state s"
    and pay: "unat (min (length_f frame) 8) \<le> length (payload frame)"
    and fin: "flg k AND read_CANTBSEL (write_CANTBSEL (CANTFLG s) s) =
              read_CANTBSEL (write_CANTBSEL (CANTFLG s) s)"
  shows "\<exists>s'. CANsend flg s frame =
             Some (Inr (0, s', frame\<lparr>length_f := min (length_f frame) 8\<rparr>)) \<and>
           reg16 (CANTXIDR0 s') (CANTXIDR1 s') = push_bit 5 (id_f frame) \<and>
           reg32 (CANTXIDR0 s') (CANTXIDR1 s') (CANTXIDR2 s') (CANTXIDR3 s') =
             push_bit (5 + 16) (ucast (id_f frame)) \<and>
           take (unat (min (length_f frame) 8)) (CANTXDSR s') =
             take (unat (min (length_f frame) 8)) (payload frame) \<and>
           drop (unat (min (length_f frame) 8)) (CANTXDSR s') =
             drop (unat (min (length_f frame) 8)) (CANTXDSR s) \<and>
           CANTXDLR s' = min (length_f frame) 8 \<and>
           CANTXTBPR s' = priority frame"
proof -
  let ?L = "unat (min (length_f frame) 8)"
  from wf have dsr: "length (CANTXDSR s) = 8" by (simp add: wf_state_def)
  have L8: "?L \<le> 8" by (simp add: min_def word_le_nat_alt not_le)
  from CANsend_free[of s frame flg k, OF free dsr pay fin]
  obtain D n where D: "CANsend flg s frame =
           Some (Inr (0,
             s\<lparr>CANTBSEL := CANTFLG s AND 0x07,
               CANTXIDR0 := ucast (drop_bit 24 (push_bit (5 + 16) (ucast (id_f frame)) :: dword)),
               CANTXIDR1 := ucast (drop_bit 16 (push_bit (5 + 16) (ucast (id_f frame)) :: dword)),
               CANTXIDR2 := ucast (drop_bit 8 (push_bit (5 + 16) (ucast (id_f frame)) :: dword)),
               CANTXIDR3 := ucast (push_bit (5 + 16) (ucast (id_f frame)) :: dword),
               CANTXDSR := D,
               CANTXDLR := min (length_f frame) 8,
               CANTXTBPR := priority frame,
               CANTFLG := flg n\<rparr>,
             frame\<lparr>length_f := min (length_f frame) 8\<rparr>))"
      "length D = 8"
      "\<forall>j < 8. D ! j = (if j < ?L then payload frame ! j else CANTXDSR s ! j)"
    by blast
  let ?s' = "s\<lparr>CANTBSEL := CANTFLG s AND 0x07,
               CANTXIDR0 := ucast (drop_bit 24 (push_bit (5 + 16) (ucast (id_f frame)) :: dword)),
               CANTXIDR1 := ucast (drop_bit 16 (push_bit (5 + 16) (ucast (id_f frame)) :: dword)),
               CANTXIDR2 := ucast (drop_bit 8 (push_bit (5 + 16) (ucast (id_f frame)) :: dword)),
               CANTXIDR3 := ucast (push_bit (5 + 16) (ucast (id_f frame)) :: dword),
               CANTXDSR := D,
               CANTXDLR := min (length_f frame) 8,
               CANTXTBPR := priority frame,
               CANTFLG := flg n\<rparr>"
  have t: "take ?L D = take ?L (payload frame)"
  proof (rule nth_equalityI)
    show "length (take ?L D) = length (take ?L (payload frame))"
      using D(2) pay L8 by simp
  next
    fix j assume "j < length (take ?L D)"
    then have "j < ?L" "j < 8" using D(2) L8 by simp_all
    with D(3) show "take ?L D ! j = take ?L (payload frame) ! j" by simp
  qed
  have d: "drop ?L D = drop ?L (CANTXDSR s)"
  proof (rule nth_equalityI)
    show "length (drop ?L D) = length (drop ?L (CANTXDSR s))" using D(2) dsr by simp
  next
    fix j assume "j < length (drop ?L D)"
    then have "?L + j < 8" using D(2) by simp
    with D(3) D(2) dsr L8 show "drop ?L D ! j = drop ?L (CANTXDSR s) ! j" by simp
  qed
  have i16: "reg16 (CANTXIDR0 ?s') (CANTXIDR1 ?s') = push_bit 5 (id_f frame)"
    using txid_aligned(1)[of "id_f frame"] by simp
  have i32: "reg32 (CANTXIDR0 ?s') (CANTXIDR1 ?s') (CANTXIDR2 ?s') (CANTXIDR3 ?s') =
             push_bit (5 + 16) (ucast (id_f frame))"
    using reg32_bytes[of "push_bit (5 + 16) (ucast (id_f frame))"] by simp
  show ?thesis
  proof (intro exI conjI)
    show "CANsend flg s frame = Some (Inr (0, ?s', frame\<lparr>length_f := min (length_f frame) 8\<rparr>))"
      by (rule D(1))
    show "reg16 (CANTXIDR0 ?s') (CANTXIDR1 ?s') = push_bit 5 (id_f frame)" by (rule i16)
    show "reg32 (CANTXIDR0 ?s') (CANTXIDR1 ?s') (CANTXIDR2 ?s') (CANTXIDR3 ?s') =
             push_bit (5 + 16) (ucast (id_f frame))" by (rule i32)
    show "take ?L (CANTXDSR ?s') = take ?L (payload frame)" using t by simp
    show "drop ?L (CANTXDSR ?s') = drop ?L (CANTXDSR s)" using d by simp
    show "CANTXDLR ?s' = min (length_f frame) 8" by simp
    show "CANTXTBPR ?s' = priority frame" by simp
  qed
qed

theorem send_loads_frame_witness:
  "CANTFLG_TXE power_on \<noteq> 0 \<and> wf_state power_on \<and>
   unat (min (length_f \<lparr>id_f = 0x123, payload = [1, 2, 3], length_f = 3, priority = 0\<rparr>) 8)
     \<le> length (payload \<lparr>id_f = 0x123, payload = [1, 2, 3], length_f = 3, priority = 0\<rparr>) \<and>
   sent_at_once 0 AND read_CANTBSEL (write_CANTBSEL (CANTFLG power_on) power_on) =
     read_CANTBSEL (write_CANTBSEL (CANTFLG power_on) power_on) \<and>
   (\<exists>s'. CANsend sent_at_once power_on
            \<lparr>id_f = 0x123, payload = [1, 2, 3], length_f = 3, priority = 0\<rparr> =
          Some (Inr (0, s', \<lparr>id_f = 0x123, payload = [1, 2, 3], length_f = 3, priority = 0\<rparr>)) \<and>
        reg16 (CANTXIDR0 s') (CANTXIDR1 s') = 0x2460 \<and>
        take 3 (CANTXDSR s') = [1, 2, 3] \<and>
        CANTXDLR s' = 3 \<and> CANTXTBPR s' = 0)"
proof -
  let ?f = "\<lparr>id_f = 0x123, payload = [1, 2, 3], length_f = 3, priority = 0\<rparr>"
  have h1: "CANTFLG_TXE power_on \<noteq> 0" by (simp add: CANTFLG_TXE_def power_on_def)
  have h2: "wf_state power_on" by (simp add: wf_state_def power_on_def PAYLOAD_SIZE_def)
  have h3: "unat (min (length_f ?f) 8) \<le> length (payload ?f)" by simp
  have h4: "sent_at_once 0 AND read_CANTBSEL (write_CANTBSEL (CANTFLG power_on) power_on) =
     read_CANTBSEL (write_CANTBSEL (CANTFLG power_on) power_on)"
    by (simp add: sent_at_once_def read_CANTBSEL_def write_CANTBSEL_def power_on_def)
  from send_loads_frame [of power_on ?f sent_at_once 0, OF h1 h2 h3 h4]
  have "\<exists>s'. CANsend sent_at_once power_on ?f = Some (Inr (0, s', ?f)) \<and>
        reg16 (CANTXIDR0 s') (CANTXIDR1 s') = 0x2460 \<and>
        take 3 (CANTXDSR s') = [1, 2, 3] \<and>
        CANTXDLR s' = 3 \<and> CANTXTBPR s' = 0"
    by simp blast
  with h1 h2 h3 h4 show ?thesis by blast
qed

text \<open>
  Claim C7, as amended. \<^verbatim>\<open>CANsend\<close> does not leave every field of the caller's frame
  alone: when a buffer is free and the length field exceeds 8, the assignment
  \<^verbatim>\<open>frame->length = 8\<close> changes the caller's structure. What holds whenever the call
  returns: identifier, payload and priority of the frame are unchanged, and the length
  field is unchanged as well unless a buffer was free and the length exceeded 8, in which
  case it is 8. (The state that the call leaves behind consists of the driver's
  variables and the registers only; it has no component that refers to the frame.)
\<close>

theorem send_frame_effect:
  assumes "send_frame (CANsend flg s frame) = Some f'"
  shows "id_f f' = id_f frame \<and> payload f' = payload frame \<and> priority f' = priority frame \<and>
         length_f f' = (if CANTFLG_TXE s \<noteq> 0 \<and> length_f frame > 8 then 8 else length_f frame)"
proof (cases "CANTFLG_TXE s = 0")
  case True
  with assms have "f' = frame" by (simp add: CANsend_def send_frame_def)
  with True show ?thesis by simp
next
  case False
  define frame1 where "frame1 = (if length_f frame > 8 then frame\<lparr>length_f := 8\<rparr> else frame)"
  from False assms have "f' = frame1"
    unfolding CANsend_def send_frame_def Let_def frame1_def[symmetric]
    by (auto split: sum.splits option.splits)
  with False show ?thesis by (simp add: frame1_def)
qed

theorem send_frame_effect_witness:
  "send_frame (CANsend sent_at_once power_on
      \<lparr>id_f = 0x123, payload = [1, 2, 3, 4, 5, 6, 7, 8], length_f = 12, priority = 5\<rparr>) =
     Some \<lparr>id_f = 0x123, payload = [1, 2, 3, 4, 5, 6, 7, 8], length_f = 8, priority = 5\<rparr> \<and>
   id_f \<lparr>id_f = 0x123, payload = [1, 2, 3, 4, 5, 6, 7, 8], length_f = 8, priority = 5\<rparr> =
     (0x123 :: word16) \<and>
   payload \<lparr>id_f = 0x123 :: word16, payload = [1, 2, 3, 4, 5, 6, 7, 8], length_f = 8 :: byte,
            priority = 5 :: byte\<rparr> = [1, 2, 3, 4, 5, 6, 7, 8 :: byte] \<and>
   priority \<lparr>id_f = 0x123 :: word16, payload = [1, 2, 3, 4, 5, 6, 7, 8 :: byte],
             length_f = 8 :: byte, priority = 5\<rparr> = (5 :: byte) \<and>
   length_f \<lparr>id_f = 0x123 :: word16, payload = [1, 2, 3, 4, 5, 6, 7, 8 :: byte], length_f = 8,
             priority = 5 :: byte\<rparr> =
     (if CANTFLG_TXE power_on \<noteq> 0 \<and> (12 :: byte) > 8 then 8 else 12)"
proof -
  have r: "send_frame (CANsend sent_at_once power_on
      \<lparr>id_f = 0x123, payload = [1, 2, 3, 4, 5, 6, 7, 8], length_f = 12, priority = 5\<rparr>) =
     Some \<lparr>id_f = 0x123, payload = [1, 2, 3, 4, 5, 6, 7, 8], length_f = 8, priority = 5\<rparr>"
    by (simp add: send_frame_def CANsend_def CANTFLG_TXE_def power_on_def write_CANTBSEL_def
      read_CANTBSEL_def write_CANTFLG_def tx_copy.simps spin_while.simps sent_at_once_def Let_def)
  from send_frame_effect [OF r] r show ?thesis by (simp add: CANTFLG_TXE_def power_on_def)
qed

text \<open>
  The claim as it was stated fails for a frame of length 9 sent while a buffer is free:
  the frame comes back with the length field 8.
\<close>

theorem send_changes_frame_counterexample:
  "send_frame (CANsend sent_at_once power_on
      \<lparr>id_f = 0x123, payload = [1, 2, 3, 4, 5, 6, 7, 8, 9], length_f = 9, priority = 0\<rparr>) =
     Some \<lparr>id_f = 0x123, payload = [1, 2, 3, 4, 5, 6, 7, 8, 9], length_f = 8, priority = 0\<rparr> \<and>
   \<lparr>id_f = 0x123, payload = [1, 2, 3, 4, 5, 6, 7, 8, 9], length_f = 8, priority = 0\<rparr> \<noteq>
   \<lparr>id_f = 0x123 :: word16, payload = [1, 2, 3, 4, 5, 6, 7, 8, 9 :: byte], length_f = 9 :: byte,
    priority = 0 :: byte\<rparr>"
  by (simp add: send_frame_def CANsend_def CANTFLG_TXE_def power_on_def write_CANTBSEL_def
      read_CANTBSEL_def write_CANTFLG_def tx_copy.simps spin_while.simps sent_at_once_def Let_def)

section \<open>Two receptions in a row\<close>

lemma hw_receive_wf: "wf_state s \<Longrightarrow> length dsr = 8 \<Longrightarrow> wf_state (hw_receive dlr dsr s)"
  by (simp add: wf_state_def hw_receive_def)

lemma hw_receive_fields:
  "CANRXDLR_DLC (hw_receive dlr dsr s) = dlr AND 0x0F"
  "CANRXDSR (hw_receive dlr dsr s) = dsr"
  "rxbuffer (hw_receive dlr dsr s) = rxbuffer s"
  by (simp_all add: hw_receive_def CANRXDLR_DLC_def)

lemma receive_nth:
  assumes wf: "wf_state s" and dsr: "length dsr = 8" and L: "dlr AND 0x0F = L" "L \<le> 8"
  shows "\<exists>s'. CANreceiveISR (hw_receive dlr dsr s) = Inr s' \<and> wf_state s' \<and>
           data_available_flag s' = 1 \<and>
           (\<forall>j < 8. rxbuffer s' ! j = (if j < unat L then dsr ! j else rxbuffer s ! j))"
proof -
  let ?h = "hw_receive dlr dsr s"
  have wfh: "wf_state ?h" using wf dsr by (rule hw_receive_wf)
  have dlc: "CANRXDLR_DLC ?h = L" using L(1) by (simp add: hw_receive_fields)
  with L(2) have le: "CANRXDLR_DLC ?h \<le> 8" by simp
  from CANreceiveISR_ok[OF wfh le, unfolded hw_receive_fields L(1)]
  obtain R where R: "CANreceiveISR ?h =
            Inr (?h\<lparr>rxbuffer := R, data_available_flag := 1,
                    CANRFLG := CANRFLG ?h AND NOT CANRFLG_RXF_MASK\<rparr>)"
      "length R = 8" "take (unat L) R = take (unat L) dsr"
      "drop (unat L) R = drop (unat L) (rxbuffer s)"
    by (elim exE conjE)
  let ?s' = "?h\<lparr>rxbuffer := R, data_available_flag := 1,
                    CANRFLG := CANRFLG ?h AND NOT CANRFLG_RXF_MASK\<rparr>"
  have L8: "unat L \<le> 8" using L(2) by (simp add: word_le_nat_alt)
  have rb: "length (rxbuffer s) = 8" using wf by (simp add: wf_state_def PAYLOAD_SIZE_def)
  have nth: "R ! j = (if j < unat L then dsr ! j else rxbuffer s ! j)" if "j < 8" for j
  proof (cases "j < unat L")
    case True
    then have "R ! j = take (unat L) R ! j" by simp
    also have "\<dots> = take (unat L) dsr ! j" by (simp only: R(3))
    also have "\<dots> = dsr ! j" using True by simp
    finally show ?thesis using True by simp
  next
    case False
    then have jL: "unat L \<le> j" by simp
    then have "R ! j = drop (unat L) R ! (j - unat L)" using R(2) that by simp
    also have "\<dots> = drop (unat L) (rxbuffer s) ! (j - unat L)" by (simp only: R(4))
    also have "\<dots> = rxbuffer s ! j" using jL rb that by simp
    finally show ?thesis using False by simp
  qed
  have "wf_state ?s'" using wfh R(2) by (simp add: wf_state_def PAYLOAD_SIZE_def)
  moreover have "data_available_flag ?s' = 1" by simp
  moreover have "\<forall>j < 8. rxbuffer ?s' ! j = (if j < unat L then dsr ! j else rxbuffer s ! j)"
    using nth by simp
  ultimately show ?thesis using R(1) by blast
qed

text \<open>
  Claim C5, as amended. The handler runs a second time before \<^verbatim>\<open>data_used\<close> is
  called, for messages of the lengths \<open>L1\<close> and \<open>L2\<close> (both at most 8). Afterwards the
  flag is set and \<^verbatim>\<open>CANget\<close> yields the \<open>L2\<close> bytes of the second message at the
  indices below \<open>L2\<close>. The bytes at the indices from \<open>L2\<close> on are not touched by the
  second run: below \<open>L1\<close> they are still the bytes of the first message, which stay
  observable, and from \<open>L1\<close> on they are what the buffer held before both. The first
  message is gone completely only if the second is at least as long.
\<close>

theorem second_receive_overwrites_prefix:
  assumes wf: "wf_state s"
    and m1: "length dsr1 = 8" "dlr1 AND 0x0F = L1" "L1 \<le> 8"
    and m2: "length dsr2 = 8" "dlr2 AND 0x0F = L2" "L2 \<le> 8"
    and msg: "length message = unat PAYLOAD_SIZE"
  shows "\<exists>s1 s2. CANreceiveISR (hw_receive dlr1 dsr1 s) = Inr s1 \<and>
           CANreceiveISR (hw_receive dlr2 dsr2 s1) = Inr s2 \<and>
           data_available s2 \<noteq> 0 \<and>
           length (fst (CANget s2 message)) = 8 \<and>
           (\<forall>j < 8. fst (CANget s2 message) ! j =
              (if j < unat L2 then dsr2 ! j
               else if j < unat L1 then dsr1 ! j
               else rxbuffer s ! j))"
proof -
  from receive_nth[OF wf m1]
  obtain s1 where s1: "CANreceiveISR (hw_receive dlr1 dsr1 s) = Inr s1" "wf_state s1"
      "\<forall>j < 8. rxbuffer s1 ! j = (if j < unat L1 then dsr1 ! j else rxbuffer s ! j)"
    by blast
  from receive_nth[OF s1(2) m2]
  obtain s2 where s2: "CANreceiveISR (hw_receive dlr2 dsr2 s1) = Inr s2" "wf_state s2"
      "data_available_flag s2 = 1"
      "\<forall>j < 8. rxbuffer s2 ! j = (if j < unat L2 then dsr2 ! j else rxbuffer s1 ! j)"
    by blast
  have rb: "length (rxbuffer s2) = unat PAYLOAD_SIZE" "length (rxbuffer s2) = 8"
    using s2(2) by (simp_all add: wf_state_def PAYLOAD_SIZE_def)
  have get: "fst (CANget s2 message) = rxbuffer s2"
    using msg rb(1) by (rule CANget_message)
  have "\<forall>j < 8. rxbuffer s2 ! j =
              (if j < unat L2 then dsr2 ! j
               else if j < unat L1 then dsr1 ! j
               else rxbuffer s ! j)"
    using s1(3) s2(4) by simp
  moreover have "data_available s2 \<noteq> 0" using s2(3) by (simp add: data_available_def)
  ultimately have "data_available s2 \<noteq> 0 \<and>
           length (fst (CANget s2 message)) = 8 \<and>
           (\<forall>j < 8. fst (CANget s2 message) ! j =
              (if j < unat L2 then dsr2 ! j
               else if j < unat L1 then dsr1 ! j
               else rxbuffer s ! j))"
    using rb(2) unfolding get by blast
  with s1(1) s2(1) show ?thesis by blast
qed

theorem second_receive_overwrites_prefix_witness:
  "wf_state power_on \<and>
   length [0xA1, 0xA2, 0, 0, 0, 0, 0, 0 :: byte] = 8 \<and> (2 :: byte) AND 0x0F = 2 \<and> (2 :: byte) \<le> 8 \<and>
   length [0xB1, 0, 0, 0, 0, 0, 0, 0 :: byte] = 8 \<and> (1 :: byte) AND 0x0F = 1 \<and> (1 :: byte) \<le> 8 \<and>
   length [0, 0, 0, 0, 0, 0, 0, 0 :: byte] = unat PAYLOAD_SIZE \<and>
   (\<exists>s1 s2. CANreceiveISR (hw_receive 2 [0xA1, 0xA2, 0, 0, 0, 0, 0, 0] power_on) = Inr s1 \<and>
           CANreceiveISR (hw_receive 1 [0xB1, 0, 0, 0, 0, 0, 0, 0] s1) = Inr s2 \<and>
           data_available s2 \<noteq> 0 \<and>
           length (fst (CANget s2 [0, 0, 0, 0, 0, 0, 0, 0])) = 8 \<and>
           (\<forall>j < 8. fst (CANget s2 [0, 0, 0, 0, 0, 0, 0, 0]) ! j =
              (if j < unat (1 :: byte) then [0xB1, 0, 0, 0, 0, 0, 0, 0] ! j
               else if j < unat (2 :: byte) then [0xA1, 0xA2, 0, 0, 0, 0, 0, 0] ! j
               else rxbuffer power_on ! j)))"
proof -
  have h0: "wf_state power_on" by (simp add: wf_state_def power_on_def PAYLOAD_SIZE_def)
  have h1: "length [0xA1, 0xA2, 0, 0, 0, 0, 0, 0 :: byte] = 8" by simp
  have h2: "(2 :: byte) AND 0x0F = 2" by simp
  have h3: "(2 :: byte) \<le> 8" by simp
  have h4: "length [0xB1, 0, 0, 0, 0, 0, 0, 0 :: byte] = 8" by simp
  have h5: "(1 :: byte) AND 0x0F = 1" by simp
  have h6: "(1 :: byte) \<le> 8" by simp
  have h7: "length [0, 0, 0, 0, 0, 0, 0, 0 :: byte] = unat PAYLOAD_SIZE"
    by (simp add: PAYLOAD_SIZE_def)
  note c = second_receive_overwrites_prefix [OF h0 h1 h2 h3 h4 h5 h6 h7]
  show ?thesis
    by (intro conjI) (rule h0 h1 h2 h3 h4 h5 h6 h7 c)+
qed

text \<open>
  The claim as it was stated fails when the second message is the shorter one: after a
  message of two bytes and a message of one byte, \<^verbatim>\<open>CANget\<close> yields the byte
  \<open>0xA2\<close> of the first message at index 1.
\<close>

theorem second_receive_counterexample:
  "CANreceiveISR (hw_receive 2 [0xA1, 0xA2, 0, 0, 0, 0, 0, 0] power_on) =
     Inr (power_on\<lparr>rxbuffer := [0xA1, 0xA2, 0, 0, 0, 0, 0, 0], data_available_flag := 1,
                   CANRXDLR := 2, CANRXDSR := [0xA1, 0xA2, 0, 0, 0, 0, 0, 0]\<rparr>) \<and>
   CANreceiveISR (hw_receive 1 [0xB1, 0, 0, 0, 0, 0, 0, 0]
       (power_on\<lparr>rxbuffer := [0xA1, 0xA2, 0, 0, 0, 0, 0, 0], data_available_flag := 1,
                   CANRXDLR := 2, CANRXDSR := [0xA1, 0xA2, 0, 0, 0, 0, 0, 0]\<rparr>)) =
     Inr (power_on\<lparr>rxbuffer := [0xB1, 0xA2, 0, 0, 0, 0, 0, 0], data_available_flag := 1,
                   CANRXDLR := 1, CANRXDSR := [0xB1, 0, 0, 0, 0, 0, 0, 0]\<rparr>) \<and>
   fst (CANget (power_on\<lparr>rxbuffer := [0xB1, 0xA2, 0, 0, 0, 0, 0, 0], data_available_flag := 1,
                   CANRXDLR := 1, CANRXDSR := [0xB1, 0, 0, 0, 0, 0, 0, 0]\<rparr>)
               [0, 0, 0, 0, 0, 0, 0, 0]) =
     [0xB1, 0xA2, 0, 0, 0, 0, 0, 0]"
  by code_simp

section \<open>Properties of the initialisation\<close>

lemma CANinit_ok:
  assumes a1: "ack n" and lt: "n < m" and a2: "\<not> ack m"
  shows "CANinit ack s idw =
           Some (s\<lparr>CANCTL1_CANE := True, CANCTL0_INITRQ := False, CANCTL1_INITAK := False,
                   CANCTL0_TIME := True, CANCTL1_LISTEN := False, CANCTL1_LOOPB := False,
                   clk_src := MSCAN_CLK_SRC_BUS, prescale := MSCAN_PRESCALE_1,
                   time_seg1 := MSCAN_TIME_SEG1_4, time_seg2 := MSCAN_TIME_SEG2_3,
                   jump_width := MSCAN_SJW_4TQ, sample_bits := MSCAN_SAMPLE_1,
                   acc_mode := MSCAN_ACC_4_16,
                   CANIDMR0 := hi_byte (0x0007 OR NOT (push_bit 5 idw)),
                   CANIDMR1 := lo_byte (0x0007 OR NOT (push_bit 5 idw)),
                   CANIDAR0 := hi_byte (push_bit 5 idw),
                   CANIDAR1 := lo_byte (push_bit 5 idw),
                   CANRIER_RXFIE := True\<rparr>)"
proof -
  from a1 have "\<not> \<not> ack n" by simp
  from spin_while_terminates[of "\<lambda>initak. \<not> initak" ack n 0, OF this]
  obtain n1 where n1: "spin_while (\<lambda>initak. \<not> initak) ack 0 = Some n1" "n1 \<le> n" "ack n1"
    by auto
  from n1(2) lt have "Suc n1 \<le> m" by simp
  from spin_while_terminates[of "\<lambda>initak. initak" ack m "Suc n1", OF a2 this]
  obtain n2 where n2: "spin_while (\<lambda>initak. initak) ack (Suc n1) = Some n2" "\<not> ack n2"
    by auto
  show ?thesis
    using n1(1,3) n2 by (simp add: CANinit_def Let_def)
qed

lemma mask_accepts:
  fixes idw rx :: word16
  shows "filter_accepts (push_bit 5 idw) (0x0007 OR NOT (push_bit 5 idw)) rx \<longleftrightarrow>
         rx AND push_bit 5 idw = push_bit 5 idw"
proof -
  define a where "a = push_bit 5 idw"
  have m: "(7 :: word16) = mask 3" by (simp add: mask_eq_exp_minus_1)
  have "NOT (7 OR NOT a) = a AND NOT 7"
    by (rule bit_word_eqI) (auto simp: bit_simps)
  also have "\<dots> = a"
    unfolding a_def m by (rule bit_word_eqI) (auto simp: bit_simps)
  finally have n: "NOT (7 OR NOT a) = a" .
  have "((rx XOR a) AND a = 0) = (rx AND a = a)"
    by (auto simp: bit_eq_iff bit_simps)
  then show ?thesis
    unfolding filter_accepts_def a_def[symmetric] n .
qed

lemma std_frame_accepts:
  fixes idw fid :: word16
  assumes "idw < 2 ^ 11"
  shows "(push_bit 5 fid AND push_bit 5 idw = push_bit 5 idw) \<longleftrightarrow> (fid AND idw = idw)"
proof -
  from assms have "idw AND mask 11 = idw" by (rule less_mask_eq)
  then have "take_bit 11 idw = idw" by (simp add: take_bit_eq_mask)
  then have hi: "\<not> bit idw n" if "11 \<le> n" for n
    using that by (metis bit_take_bit_iff not_le)
  show ?thesis
  proof
    assume l: "push_bit 5 fid AND push_bit 5 idw = push_bit 5 idw"
    show "fid AND idw = idw"
    proof (rule bit_word_eqI)
      fix n assume "n < LENGTH(16)"
      show "bit (fid AND idw) n = bit idw n"
      proof (cases "n < 11")
        case True
        from l have "bit (push_bit 5 fid AND push_bit 5 idw) (n + 5) = bit (push_bit 5 idw) (n + 5)"
          by simp
        with True show ?thesis by (simp add: bit_simps)
      next
        case False
        then show ?thesis using hi[of n] by (simp add: bit_simps)
      qed
    qed
  next
    assume "fid AND idw = idw"
    then have "push_bit 5 (fid AND idw) = push_bit 5 idw" by simp
    then show "push_bit 5 fid AND push_bit 5 idw = push_bit 5 idw"
      by simp
  qed
qed

text \<open>
  Claim C6, as amended. Once the hardware has acknowledged the two mode changes,
  \<^verbatim>\<open>CANinit\<close> has returned with the identifier register pair holding the identifier
  shifted left by 5 and the mask register pair holding \<open>0x0007 OR NOT (id << 5)\<close>. In
  this mask the don't-care bits are the three trailing alignment bits and, beyond them,
  every bit at which the shifted identifier is 0 (the RTR and IDE bits among them). The
  filter therefore accepts exactly the frames whose identifier word has a 1 wherever the
  shifted filter identifier has one; for a standard frame and an 11-bit filter
  identifier that is: \<open>fid AND id = id\<close>. Frames with another identifier are accepted
  too, as long as their identifier contains the bits of the filter identifier.
\<close>

theorem init_programs_filter:
  assumes a1: "ack n" and lt: "n < m" and a2: "\<not> ack m"
  shows "\<exists>s'. CANinit ack s idw = Some s' \<and>
           acceptance_id s' = push_bit 5 idw \<and>
           acceptance_mask s' = 0x0007 OR NOT (push_bit 5 idw) \<and>
           (\<forall>rx. accepts rx s' \<longleftrightarrow> rx AND push_bit 5 idw = push_bit 5 idw) \<and>
           (idw < 2 ^ 11 \<longrightarrow> (\<forall>fid. accepts (push_bit 5 fid) s' \<longleftrightarrow> fid AND idw = idw))"
proof -
  let ?s' = "s\<lparr>CANCTL1_CANE := True, CANCTL0_INITRQ := False, CANCTL1_INITAK := False,
                   CANCTL0_TIME := True, CANCTL1_LISTEN := False, CANCTL1_LOOPB := False,
                   clk_src := MSCAN_CLK_SRC_BUS, prescale := MSCAN_PRESCALE_1,
                   time_seg1 := MSCAN_TIME_SEG1_4, time_seg2 := MSCAN_TIME_SEG2_3,
                   jump_width := MSCAN_SJW_4TQ, sample_bits := MSCAN_SAMPLE_1,
                   acc_mode := MSCAN_ACC_4_16,
                   CANIDMR0 := hi_byte (0x0007 OR NOT (push_bit 5 idw)),
                   CANIDMR1 := lo_byte (0x0007 OR NOT (push_bit 5 idw)),
                   CANIDAR0 := hi_byte (push_bit 5 idw),
                   CANIDAR1 := lo_byte (push_bit 5 idw),
                   CANRIER_RXFIE := True\<rparr>"
  have init: "CANinit ack s idw = Some ?s'" using a1 lt a2 by (rule CANinit_ok)
  have idar: "acceptance_id ?s' = push_bit 5 idw"
    by (simp add: acceptance_id_def reg16_bytes)
  have idmr: "acceptance_mask ?s' = 0x0007 OR NOT (push_bit 5 idw)"
    by (simp add: acceptance_mask_def reg16_bytes)
  have acc: "accepts rx ?s' \<longleftrightarrow> rx AND push_bit 5 idw = push_bit 5 idw" for rx
    unfolding accepts_def idar idmr by (rule mask_accepts)
  have std: "accepts (push_bit 5 fid) ?s' \<longleftrightarrow> fid AND idw = idw" if "idw < 2 ^ 11" for fid
    unfolding acc using that by (rule std_frame_accepts)
  show ?thesis
  proof (intro exI conjI allI impI)
    show "CANinit ack s idw = Some ?s'" by (rule init)
    show "acceptance_id ?s' = push_bit 5 idw" by (rule idar)
    show "acceptance_mask ?s' = 0x0007 OR NOT (push_bit 5 idw)" by (rule idmr)
    show "accepts rx ?s' \<longleftrightarrow> rx AND push_bit 5 idw = push_bit 5 idw" for rx by (rule acc)
    show "accepts (push_bit 5 fid) ?s' \<longleftrightarrow> fid AND idw = idw" if "idw < 2 ^ 11" for fid
      using that by (rule std)
  qed
qed

theorem init_programs_filter_witness:
  "ack_at_once 0 \<and> (0 :: nat) < 1 \<and> \<not> ack_at_once 1 \<and> (0x123 :: word16) < 2 ^ 11 \<and>
   (\<exists>s'. CANinit ack_at_once power_on 0x123 = Some s' \<and>
         acceptance_id s' = push_bit 5 0x123 \<and>
         acceptance_mask s' = 0x0007 OR NOT (push_bit 5 0x123) \<and>
         (\<forall>rx. accepts rx s' \<longleftrightarrow> rx AND push_bit 5 0x123 = push_bit 5 0x123) \<and>
         (\<forall>fid. accepts (push_bit 5 fid) s' \<longleftrightarrow> fid AND 0x123 = 0x123))"
proof -
  have h1: "ack_at_once 0" by (simp add: ack_at_once_def)
  have h2: "(0 :: nat) < 1" by simp
  have h3: "\<not> ack_at_once 1" by (simp add: ack_at_once_def)
  have h4: "(0x123 :: word16) < 2 ^ 11" by simp
  from init_programs_filter [of ack_at_once 0 1 power_on "0x123", OF h1 h2 h3]
  obtain s' where s': "CANinit ack_at_once power_on 0x123 = Some s'"
      "acceptance_id s' = push_bit 5 0x123"
      "acceptance_mask s' = 0x0007 OR NOT (push_bit 5 0x123)"
      "\<forall>rx. accepts rx s' \<longleftrightarrow> rx AND push_bit 5 0x123 = push_bit 5 0x123"
      "(0x123 :: word16) < 2 ^ 11 \<longrightarrow>
         (\<forall>fid. accepts (push_bit 5 fid) s' \<longleftrightarrow> fid AND 0x123 = 0x123)"
    by (elim exE conjE)
  from s'(5) h4 have "\<forall>fid. accepts (push_bit 5 fid) s' \<longleftrightarrow> fid AND 0x123 = 0x123" by (rule mp)
  with s'(1-4) h1 h2 h3 h4 show ?thesis by blast
qed

text \<open>
  The claim as it was stated fails for the filter identifier \<open>0x123\<close>: the mask
  \<open>0xDB9F\<close> has don't-care bits inside the identifier field (bits 15..5), and the
  filter accepts the standard frame with the identifier \<open>0x7FF\<close>.
\<close>

theorem init_filter_counterexample:
  "map_option acceptance_id (CANinit ack_at_once power_on 0x123) = Some 0x2460 \<and>
   map_option acceptance_mask (CANinit ack_at_once power_on 0x123) = Some 0xDB9F \<and>
   (0xDB9F :: word16) AND 0xFFE0 \<noteq> 0 \<and>
   map_option (accepts (push_bit 5 0x7FF)) (CANinit ack_at_once power_on 0x123) = Some True \<and>
   (0x7FF :: word16) \<noteq> 0x123"
  by code_simp

text \<open>
  Claim C8. The timing that \<^verbatim>\<open>CANinit\<close> programs is a prescaler of 1, a time segment 1
  of 4 quanta and a time segment 2 of 3 quanta, on the bus clock of 8 MHz. That is 8
  quanta per bit, within 8..25, with time segment 1 within 4..16 and time segment 2 within
  2..8, and by \<open>b = f/KN\<close> a bit rate of 1 Mbit/s.
\<close>

theorem init_timing:
  assumes a1: "ack n" and lt: "n < m" and a2: "\<not> ack m"
  shows "\<exists>s'. CANinit ack s idw = Some s' \<and>
           clk_src s' = 8000000 \<and> prescale s' = 1 \<and> time_seg1 s' = 4 \<and> time_seg2 s' = 3 \<and>
           quanta_per_bit s' = 8 \<and>
           8 \<le> quanta_per_bit s' \<and> quanta_per_bit s' \<le> 25 \<and>
           4 \<le> time_seg1 s' \<and> time_seg1 s' \<le> 16 \<and>
           2 \<le> time_seg2 s' \<and> time_seg2 s' \<le> 8 \<and>
           bit_rate s' = 1000000"
  unfolding CANinit_ok[of ack n m s idw, OF a1 lt a2]
  by (simp add: quanta_per_bit_def bit_rate_def MSCAN_CLK_SRC_BUS_def MSCAN_PRESCALE_1_def
      MSCAN_TIME_SEG1_4_def MSCAN_TIME_SEG2_3_def)

theorem init_timing_witness:
  "ack_at_once 0 \<and> (0 :: nat) < 1 \<and> \<not> ack_at_once 1 \<and>
   (\<exists>s'. CANinit ack_at_once power_on 0x123 = Some s' \<and>
         clk_src s' = 8000000 \<and> prescale s' = 1 \<and> time_seg1 s' = 4 \<and> time_seg2 s' = 3 \<and>
         quanta_per_bit s' = 8 \<and> bit_rate s' = 1000000)"
proof -
  have h1: "ack_at_once 0" by (simp add: ack_at_once_def)
  have h2: "(0 :: nat) < 1" by simp
  have h3: "\<not> ack_at_once 1" by (simp add: ack_at_once_def)
  from init_timing [of ack_at_once 0 1 power_on "0x123", OF h1 h2 h3]
  obtain s' where "CANinit ack_at_once power_on 0x123 = Some s'"
      "clk_src s' = 8000000" "prescale s' = 1" "time_seg1 s' = 4" "time_seg2 s' = 3"
      "quanta_per_bit s' = 8" "bit_rate s' = 1000000"
    by (elim exE conjE)
  with h1 h2 h3 show ?thesis by blast
qed

section \<open>The mailbox state under all operations\<close>

lemma rx_copy_frame:
  "rx_copy len i s = Inr s' \<Longrightarrow> \<exists>R. s' = s\<lparr>rxbuffer := R\<rparr>"
proof (induction len i s rule: rx_copy.induct)
  case (1 len i s)
  show ?case
  proof (cases "i < len")
    case False
    with "1.prems" have "s' = s" by (subst (asm) rx_copy.simps) simp
    then have "s' = s\<lparr>rxbuffer := rxbuffer s\<rparr>" by simp
    then show ?thesis by blast
  next
    case True
    show ?thesis
    proof (cases "i < PAYLOAD_SIZE")
      case False
      with True "1.prems" show ?thesis by (subst (asm) rx_copy.simps) simp
    next
      case lt: True
      let ?s1 = "s\<lparr>rxbuffer := (rxbuffer s)[unat i := CANRXDSR s ! unat i]\<rparr>"
      from True lt "1.prems" have "rx_copy len (i + 1) ?s1 = Inr s'"
        by (subst (asm) rx_copy.simps) simp
      from "1.IH"[OF True lt this] obtain R where "s' = ?s1\<lparr>rxbuffer := R\<rparr>" by blast
      then have "s' = s\<lparr>rxbuffer := R\<rparr>" by simp
      then show ?thesis by blast
    qed
  qed
qed

lemma tx_copy_frame:
  "tx_copy frame i s = Inr s' \<Longrightarrow> \<exists>D. s' = s\<lparr>CANTXDSR := D\<rparr>"
proof (induction frame i s rule: tx_copy.induct)
  case (1 frame i s)
  show ?case
  proof (cases "i < length_f frame")
    case False
    with "1.prems" have "s' = s" by (subst (asm) tx_copy.simps) simp
    then have "s' = s\<lparr>CANTXDSR := CANTXDSR s\<rparr>" by simp
    then show ?thesis by blast
  next
    case True
    let ?s1 = "s\<lparr>CANTXDSR := (CANTXDSR s)[unat i := payload frame ! unat i]\<rparr>"
    from True "1.prems" have ok: "\<not> \<not> unat i < length (payload frame)"
        "\<not> \<not> unat i < length (CANTXDSR s)" and rec: "tx_copy frame (i + 1) ?s1 = Inr s'"
      by (subst (asm) tx_copy.simps, simp split: if_splits)+
    from "1.IH"[OF True ok rec] obtain D where "s' = ?s1\<lparr>CANTXDSR := D\<rparr>" by blast
    then have "s' = s\<lparr>CANTXDSR := D\<rparr>" by simp
    then show ?thesis by blast
  qed
qed

lemma CANreceiveISR_frame:
  assumes "CANreceiveISR s = Inr s'"
  shows "data_available_flag s' = 1"
proof -
  from assms obtain s1 where s1: "rx_copy (CANRXDLR_DLC s) 0 s = Inr s1"
    and s': "s' = s1\<lparr>data_available_flag := 1, CANRFLG := CANRFLG s1 AND NOT CANRFLG_RXF_MASK\<rparr>"
    by (auto simp: CANreceiveISR_def Let_def split: sum.splits)
  then show ?thesis by simp
qed

lemma CANinit_frame:
  assumes "CANinit ack s idw = Some s'"
  shows "rxbuffer s' = rxbuffer s \<and> data_available_flag s' = data_available_flag s"
  using assms by (auto simp: CANinit_def Let_def split: option.splits)

lemma CANsend_frame:
  assumes "send_state (CANsend flg s frame) = Some s'"
  shows "rxbuffer s' = rxbuffer s \<and> data_available_flag s' = data_available_flag s"
proof (cases "CANTFLG_TXE s = 0")
  case True
  with assms show ?thesis by (simp add: CANsend_def send_state_def)
next
  case False
  define s2 where "s2 = (write_CANTBSEL (CANTFLG s) s)
     \<lparr>CANTXIDR0 := ucast (drop_bit 24 (push_bit (5 + 16) (ucast (id_f frame)) :: dword)),
      CANTXIDR1 := ucast (drop_bit 16 (push_bit (5 + 16) (ucast (id_f frame)) :: dword)),
      CANTXIDR2 := ucast (drop_bit 8 (push_bit (5 + 16) (ucast (id_f frame)) :: dword)),
      CANTXIDR3 := ucast (push_bit (5 + 16) (ucast (id_f frame)) :: dword)\<rparr>"
  define frame1 where "frame1 = (if length_f frame > 8 then frame\<lparr>length_f := 8\<rparr> else frame)"
  define txbuffer where "txbuffer = read_CANTBSEL (write_CANTBSEL (CANTFLG s) s)"
  from False assms obtain s3 n where s3: "tx_copy frame1 0 s2 = Inr s3"
    and s': "s' = (write_CANTFLG txbuffer
                    (s3\<lparr>CANTXDLR := length_f frame1, CANTXTBPR := priority frame1\<rparr>))
                  \<lparr>CANTFLG := flg n\<rparr>"
    unfolding CANsend_def send_state_def Let_def s2_def[symmetric] frame1_def[symmetric]
      txbuffer_def[symmetric]
    by (auto split: sum.splits option.splits)
  from tx_copy_frame[OF s3] obtain D where "s3 = s2\<lparr>CANTXDSR := D\<rparr>" by blast
  with s' show ?thesis by (simp add: s2_def write_CANTFLG_def write_CANTBSEL_def)
qed

lemma CANget_frame:
  "snd (CANget s message) = s\<lparr>I_mask := False\<rparr>"
  by (simp add: CANget_def Let_def)

lemma data_used_frame:
  "data_used s = s\<lparr>data_available_flag := 0, I_mask := False\<rparr>"
  by (simp add: data_used_def Let_def)

lemma exec_flag:
  assumes "exec c s = Some s'"
    and "data_available_flag s = 0 \<or> data_available_flag s = 1"
  shows "data_available_flag s' = 0 \<or> data_available_flag s' = 1"
proof (cases c)
  case (Call_CANinit idw ack)
  with assms CANinit_frame[of ack s idw s'] show ?thesis by simp
next
  case (Call_CANsend frame flg)
  with assms CANsend_frame[of flg s frame s'] show ?thesis by simp
next
  case (Call_CANget message)
  with assms show ?thesis by (auto simp: CANget_frame)
next
  case Call_data_available
  with assms show ?thesis by simp
next
  case Call_data_used
  with assms show ?thesis by (auto simp: data_used_frame)
next
  case (Interrupt dlr dsr)
  with assms have "CANreceiveISR (hw_receive dlr dsr s) = Inr s'"
    by (simp split: if_splits sum.splits)
  then show ?thesis by (simp add: CANreceiveISR_frame)
qed

lemma exec_all_flag:
  "exec_all cs s = Some s' \<Longrightarrow>
   data_available_flag s = 0 \<or> data_available_flag s = 1 \<Longrightarrow>
   data_available_flag s' = 0 \<or> data_available_flag s' = 1"
proof (induction cs arbitrary: s)
  case Nil
  then show ?case by simp
next
  case (Cons c cs)
  from Cons.prems(1) obtain s1 where s1: "exec c s = Some s1" "exec_all cs s1 = Some s'"
    by (auto split: option.splits)
  from exec_flag[OF s1(1) Cons.prems(2)] Cons.IH[OF s1(2)] show ?case by blast
qed

text \<open>
  Claim C10. The availability flag is 0 after start-up and is 0 or 1 in every state that
  a sequence of operations of the driver reaches from there. \<^verbatim>\<open>data_available\<close> only
  returns the flag; \<^verbatim>\<open>CANget\<close> leaves flag and receive buffer as they are. The receive
  buffer is written by the handler only: \<^verbatim>\<open>CANinit\<close>, \<^verbatim>\<open>CANsend\<close>, \<^verbatim>\<open>CANget\<close> and
  \<^verbatim>\<open>data_used\<close> leave it unchanged. The flag is changed by the handler, which always
  leaves it at 1, and by \<^verbatim>\<open>data_used\<close>, which always leaves it at 0; \<^verbatim>\<open>CANinit\<close>
  and \<^verbatim>\<open>CANsend\<close> leave it unchanged.
\<close>

theorem mailbox_invariant:
  "data_available_flag (startup s0) = 0 \<and>
   (exec_all cs (startup s0) = Some s \<longrightarrow>
      data_available_flag s = 0 \<or> data_available_flag s = 1) \<and>
   data_available t = data_available_flag t \<and>
   rxbuffer (snd (CANget t message)) = rxbuffer t \<and>
   data_available_flag (snd (CANget t message)) = data_available_flag t \<and>
   (CANinit ack t idw = Some t1 \<longrightarrow>
      rxbuffer t1 = rxbuffer t \<and> data_available_flag t1 = data_available_flag t) \<and>
   (send_state (CANsend flg t frame) = Some t2 \<longrightarrow>
      rxbuffer t2 = rxbuffer t \<and> data_available_flag t2 = data_available_flag t) \<and>
   rxbuffer (data_used t) = rxbuffer t \<and> data_available_flag (data_used t) = 0 \<and>
   (CANreceiveISR u = Inr u' \<longrightarrow> data_available_flag u' = 1)"
proof (intro conjI impI)
  show "data_available_flag (startup s0) = 0" by (simp add: startup_def)
next
  assume "exec_all cs (startup s0) = Some s"
  moreover have "data_available_flag (startup s0) = 0 \<or> data_available_flag (startup s0) = 1"
    by (simp add: startup_def)
  ultimately show "data_available_flag s = 0 \<or> data_available_flag s = 1"
    by (rule exec_all_flag)
next
  show "data_available t = data_available_flag t" by (simp add: data_available_def)
next
  show "rxbuffer (snd (CANget t message)) = rxbuffer t" by (simp add: CANget_frame)
next
  show "data_available_flag (snd (CANget t message)) = data_available_flag t"
    by (simp add: CANget_frame)
next
  assume "CANinit ack t idw = Some t1"
  then show "rxbuffer t1 = rxbuffer t" "data_available_flag t1 = data_available_flag t"
    using CANinit_frame by blast+
next
  assume "send_state (CANsend flg t frame) = Some t2"
  then show "rxbuffer t2 = rxbuffer t" "data_available_flag t2 = data_available_flag t"
    using CANsend_frame by blast+
next
  show "rxbuffer (data_used t) = rxbuffer t" by (simp add: data_used_frame)
next
  show "data_available_flag (data_used t) = 0" by (simp add: data_used_frame)
next
  assume "CANreceiveISR u = Inr u'"
  then show "data_available_flag u' = 1" by (rule CANreceiveISR_frame)
qed

theorem mailbox_invariant_witness:
  "data_available_flag (startup power_on) = 0 \<and>
   (\<exists>s. exec_all [Call_CANinit 0x123 ack_at_once,
                   Interrupt 3 [0x11, 0x22, 0x33, 0, 0, 0, 0, 0],
                   Call_data_available,
                   Call_CANget [0, 0, 0, 0, 0, 0, 0, 0],
                   Call_data_used,
                   Call_CANsend \<lparr>id_f = 0x123, payload = [1, 2, 3], length_f = 3, priority = 0\<rparr>
                     sent_at_once,
                   Interrupt 2 [0x44, 0x55, 0, 0, 0, 0, 0, 0]] (startup power_on) = Some s \<and>
        (data_available_flag s = 0 \<or> data_available_flag s = 1)) \<and>
   (\<exists>t1. CANinit ack_at_once power_on 0x123 = Some t1 \<and>
         rxbuffer t1 = rxbuffer power_on \<and>
         data_available_flag t1 = data_available_flag power_on) \<and>
   (\<exists>t2. send_state (CANsend sent_at_once power_on
            \<lparr>id_f = 0x123, payload = [1, 2, 3], length_f = 3, priority = 0\<rparr>) = Some t2 \<and>
         rxbuffer t2 = rxbuffer power_on \<and>
         data_available_flag t2 = data_available_flag power_on) \<and>
   (\<exists>t3. CANreceiveISR (hw_receive 3 [0x11, 0x22, 0x33, 0, 0, 0, 0, 0] power_on) = Inr t3 \<and>
         data_available_flag t3 = 1)"
proof -
  let ?cs = "[Call_CANinit 0x123 ack_at_once,
              Interrupt 3 [0x11, 0x22, 0x33, 0, 0, 0, 0, 0],
              Call_data_available,
              Call_CANget [0, 0, 0, 0, 0, 0, 0, 0],
              Call_data_used,
              Call_CANsend \<lparr>id_f = 0x123, payload = [1, 2, 3], length_f = 3, priority = 0\<rparr>
                sent_at_once,
              Interrupt 2 [0x44, 0x55, 0, 0, 0, 0, 0, 0]]"
  let ?f = "\<lparr>id_f = 0x123, payload = [1, 2, 3], length_f = 3, priority = 0\<rparr>"
  have "exec_all ?cs (startup power_on) \<noteq> None" by code_simp
  then obtain s where s: "exec_all ?cs (startup power_on) = Some s" by blast
  have "CANinit ack_at_once power_on 0x123 \<noteq> None" by code_simp
  then obtain t1 where t1: "CANinit ack_at_once power_on 0x123 = Some t1" by blast
  have "send_state (CANsend sent_at_once power_on ?f) \<noteq> None" by code_simp
  then obtain t2 where t2: "send_state (CANsend sent_at_once power_on ?f) = Some t2" by blast
  have "isl (CANreceiveISR (hw_receive 3 [0x11, 0x22, 0x33, 0, 0, 0, 0, 0] power_on)) = False"
    by code_simp
  then obtain t3 where
    t3: "CANreceiveISR (hw_receive 3 [0x11, 0x22, 0x33, 0, 0, 0, 0, 0] power_on) = Inr t3"
    by (cases "CANreceiveISR (hw_receive 3 [0x11, 0x22, 0x33, 0, 0, 0, 0, 0] power_on)") simp_all
  from mailbox_invariant [where ?s0.0 = power_on and cs = ?cs and s = s and t = power_on
      and ack = ack_at_once and idw = "0x123" and ?t1.0 = t1 and flg = sent_at_once
      and frame = ?f and ?t2.0 = t2
      and u = "hw_receive 3 [0x11, 0x22, 0x33, 0, 0, 0, 0, 0] power_on" and u' = t3]
  have "data_available_flag (startup power_on) = 0"
    "exec_all ?cs (startup power_on) = Some s \<longrightarrow>
      data_available_flag s = 0 \<or> data_available_flag s = 1"
    "CANinit ack_at_once power_on 0x123 = Some t1 \<longrightarrow>
      rxbuffer t1 = rxbuffer power_on \<and> data_available_flag t1 = data_available_flag power_on"
    "send_state (CANsend sent_at_once power_on ?f) = Some t2 \<longrightarrow>
      rxbuffer t2 = rxbuffer power_on \<and> data_available_flag t2 = data_available_flag power_on"
    "CANreceiveISR (hw_receive 3 [0x11, 0x22, 0x33, 0, 0, 0, 0, 0] power_on) = Inr t3 \<longrightarrow>
      data_available_flag t3 = 1"
    by blast+
  with s t1 t2 t3 show ?thesis by blast
qed

section \<open>\<^verbatim>\<open>CANget\<close> against the receive interrupt\<close>

lemma run_Returned:
  "run es (Returned, message, s) = Inr (p', message', s') \<Longrightarrow> message' = message"
proof (induction es arbitrary: s)
  case Nil
  then show ?case by simp
next
  case (Cons e es)
  show ?case
  proof (cases e)
    case Step
    with Cons.prems have "run es (Returned, message, s) = Inr (p', message', s')" by simp
    then show ?thesis by (rule Cons.IH)
  next
    case (Irq dlr dsr)
    show ?thesis
    proof (cases "I_mask s")
      case True
      with Irq Cons.prems have "run es (Returned, message, s) = Inr (p', message', s')" by simp
      then show ?thesis by (rule Cons.IH)
    next
      case False
      with Irq Cons.prems obtain s1 where
        "run es (Returned, message, s1) = Inr (p', message', s')"
        by (auto split: sum.splits)
      then show ?thesis by (rule Cons.IH)
    qed
  qed
qed

lemma run_AtEnable:
  "I_mask s \<Longrightarrow> run es (AtEnable, message, s) = Inr (Returned, message', s') \<Longrightarrow>
   message' = message"
proof (induction es)
  case Nil
  then show ?case by simp
next
  case (Cons e es)
  show ?case
  proof (cases e)
    case Step
    with Cons.prems have "run es (Returned, message, s\<lparr>I_mask := False\<rparr>) =
        Inr (Returned, message', s')" by simp
    then show ?thesis by (rule run_Returned)
  next
    case (Irq dlr dsr)
    with Cons.prems have "run es (AtEnable, message, s) = Inr (Returned, message', s')" by simp
    with Cons.prems(1) show ?thesis by (rule Cons.IH)
  qed
qed

lemma run_InLoop:
  "I_mask s \<Longrightarrow> length message = 8 \<Longrightarrow> length (rxbuffer s) = 8 \<Longrightarrow>
   \<forall>j < unat i. message ! j = rxbuffer s ! j \<Longrightarrow> i \<le> PAYLOAD_SIZE \<Longrightarrow>
   run es (InLoop i, message, s) = Inr (Returned, message', s') \<Longrightarrow>
   message' = rxbuffer s"
proof (induction es arbitrary: i message)
  case Nil
  then show ?case by simp
next
  case (Cons e es)
  show ?case
  proof (cases e)
    case (Irq dlr dsr)
    with Cons.prems have "run es (InLoop i, message, s) = Inr (Returned, message', s')" by simp
    from Cons.IH[OF Cons.prems(1-5) this] show ?thesis .
  next
    case Step
    show ?thesis
    proof (cases "i < PAYLOAD_SIZE")
      case True
      let ?m = "message[unat i := rxbuffer s ! unat i]"
      from True have suc: "unat (i + 1) = Suc (unat i)" by unat_arith
      from True have le: "i + 1 \<le> PAYLOAD_SIZE" by (rule inc_le)
      from True have i8: "unat i < 8" by (simp add: PAYLOAD_SIZE_def word_less_nat_alt)
      from Step True Cons.prems(6)
      have r: "run es (InLoop (i + 1), ?m, s) = Inr (Returned, message', s')" by simp
      have len: "length ?m = 8" using Cons.prems(2) by simp
      have inv: "\<forall>j < unat (i + 1). ?m ! j = rxbuffer s ! j"
      proof (intro allI impI)
        fix j assume "j < unat (i + 1)"
        then have "j < unat i \<or> j = unat i" unfolding suc by arith
        then show "?m ! j = rxbuffer s ! j"
          using Cons.prems(2,4) i8 by (auto simp: nth_list_update)
      qed
      from Cons.IH[OF Cons.prems(1) len Cons.prems(3) inv le r] show ?thesis .
    next
      case False
      with Cons.prems(5) have "i = PAYLOAD_SIZE" by simp
      then have "unat i = 8" by (simp add: PAYLOAD_SIZE_def)
      with Cons.prems(2,3,4) have eq: "message = rxbuffer s"
        by (intro nth_equalityI) simp_all
      from Step False Cons.prems(6)
      have "run es (AtEnable, message, s) = Inr (Returned, message', s')" by simp
      from run_AtEnable[OF Cons.prems(1) this] eq show ?thesis by simp
    qed
  qed
qed

lemma rx_copy_length:
  "rx_copy len i s = Inr s' \<Longrightarrow> length (rxbuffer s') = length (rxbuffer s)"
proof (induction len i s rule: rx_copy.induct)
  case (1 len i s)
  show ?case
  proof (cases "i < len")
    case False
    with "1.prems" have "s' = s" by (subst (asm) rx_copy.simps) simp
    then show ?thesis by simp
  next
    case True
    show ?thesis
    proof (cases "i < PAYLOAD_SIZE")
      case False
      with True "1.prems" show ?thesis by (subst (asm) rx_copy.simps) simp
    next
      case lt: True
      let ?s1 = "s\<lparr>rxbuffer := (rxbuffer s)[unat i := CANRXDSR s ! unat i]\<rparr>"
      from True lt "1.prems" have "rx_copy len (i + 1) ?s1 = Inr s'"
        by (subst (asm) rx_copy.simps) simp
      from "1.IH"[OF True lt this] show ?thesis by simp
    qed
  qed
qed

lemma CANreceiveISR_length:
  assumes "CANreceiveISR s = Inr s'"
  shows "length (rxbuffer s') = length (rxbuffer s)"
proof -
  from assms obtain s1 where s1: "rx_copy (CANRXDLR_DLC s) 0 s = Inr s1"
    and s': "s' = s1\<lparr>data_available_flag := 1, CANRFLG := CANRFLG s1 AND NOT CANRFLG_RXF_MASK\<rparr>"
    by (auto simp: CANreceiveISR_def Let_def split: sum.splits)
  from rx_copy_length[OF s1] s' show ?thesis by simp
qed

lemma run_AtDisable:
  "length (rxbuffer s) = 8 \<Longrightarrow> length message = 8 \<Longrightarrow>
   run es (AtDisable, message, s) = Inr (Returned, message', s') \<Longrightarrow>
   \<exists>es1 es2 s1. es = es1 @ Step # es2 \<and> Step \<notin> set es1 \<and>
      run es1 (AtDisable, message, s) = Inr (AtDisable, message, s1) \<and>
      message' = rxbuffer s1"
proof (induction es arbitrary: s)
  case Nil
  then show ?case by simp
next
  case (Cons e es)
  show ?case
  proof (cases e)
    case Step
    with Cons.prems(3)
    have r: "run es (InLoop 0, message, s\<lparr>I_mask := True\<rparr>) = Inr (Returned, message', s')"
      by simp
    have "message' = rxbuffer (s\<lparr>I_mask := True\<rparr>)"
      using Cons.prems(1,2) by (intro run_InLoop[OF _ _ _ _ _ r]) simp_all
    then have "message' = rxbuffer s" by simp
    moreover have "e # es = [] @ Step # es" using Step by simp
    moreover have "run [] (AtDisable, message, s) = Inr (AtDisable, message, s)" by simp
    ultimately show ?thesis by (metis empty_iff empty_set)
  next
    case (Irq dlr dsr)
    show ?thesis
    proof (cases "I_mask s")
      case True
      with Irq Cons.prems(3)
      have "run es (AtDisable, message, s) = Inr (Returned, message', s')" by simp
      from Cons.IH[OF Cons.prems(1,2) this]
      obtain es1 es2 s1 where *: "es = es1 @ Step # es2" "Step \<notin> set es1"
        "run es1 (AtDisable, message, s) = Inr (AtDisable, message, s1)" "message' = rxbuffer s1"
        by blast
      have "e # es = (e # es1) @ Step # es2" using *(1) by simp
      moreover have "Step \<notin> set (e # es1)" using *(2) Irq by simp
      moreover have "run (e # es1) (AtDisable, message, s) = Inr (AtDisable, message, s1)"
        using *(3) Irq True by simp
      ultimately show ?thesis using *(4) by blast
    next
      case False
      with Irq Cons.prems(3) obtain t where t: "CANreceiveISR (hw_receive dlr dsr s) = Inr t"
        and r: "run es (AtDisable, message, t) = Inr (Returned, message', s')"
        by (auto split: sum.splits)
      from CANreceiveISR_length[OF t] Cons.prems(1) have "length (rxbuffer t) = 8"
        by (simp add: hw_receive_def)
      from Cons.IH[OF this Cons.prems(2) r]
      obtain es1 es2 s1 where *: "es = es1 @ Step # es2" "Step \<notin> set es1"
        "run es1 (AtDisable, message, t) = Inr (AtDisable, message, s1)" "message' = rxbuffer s1"
        by blast
      have "e # es = (e # es1) @ Step # es2" using *(1) by simp
      moreover have "Step \<notin> set (e # es1)" using *(2) Irq by simp
      moreover have "run (e # es1) (AtDisable, message, s) = Inr (AtDisable, message, s1)"
        using *(3) Irq False t by simp
      ultimately show ?thesis using *(4) by blast
    qed
  qed
qed

lemma returned_message_Some:
  "returned_message r = Some message' \<Longrightarrow> \<exists>s'. r = Inr (Returned, message', s')"
  by (cases r rule: returned_message.cases) simp_all

text \<open>Without an interrupt the eleven steps are \<^verbatim>\<open>CANget\<close> as defined above.\<close>

lemma steps_are_CANget:
  "run [Step, Step, Step, Step, Step, Step, Step, Step, Step, Step, Step] (AtDisable, message, s) =
     Inr (Returned, CANget s message)"
  by (simp add: CANget_def Let_def get_copy.simps PAYLOAD_SIZE_def)

text \<open>
  Claim C9. In every interleaving of the steps of \<^verbatim>\<open>CANget\<close> with frames that
  arrive and request the receive interrupt, the handler cannot overwrite the buffer in
  the middle of the copy: it runs before \<^verbatim>\<open>DisableInterrupts\<close> is executed or after
  \<^verbatim>\<open>EnableInterrupts\<close>, never between two bytes. The message that \<^verbatim>\<open>CANget\<close>
  returns is therefore the whole receive buffer as it stood at one instant, the one at
  which \<^verbatim>\<open>DisableInterrupts\<close> was executed, and never a blend of the buffer before
  and after a run of the handler: the critical section makes the fixed-size copy atomic
  with respect to the handler.
\<close>

theorem read_is_atomic:
  assumes wf: "wf_state s" and msg: "length message = unat PAYLOAD_SIZE"
    and ret: "returned_message (run es (AtDisable, message, s)) = Some message'"
  shows "\<exists>es1 es2 s1. es = es1 @ Step # es2 \<and> Step \<notin> set es1 \<and>
      run es1 (AtDisable, message, s) = Inr (AtDisable, message, s1) \<and>
      message' = rxbuffer s1"
proof -
  from returned_message_Some[OF ret]
  obtain s' where "run es (AtDisable, message, s) = Inr (Returned, message', s')" by blast
  moreover from wf have "length (rxbuffer s) = 8" by (simp add: wf_state_def PAYLOAD_SIZE_def)
  moreover from msg have "length message = 8" by (simp add: PAYLOAD_SIZE_def)
  ultimately show ?thesis by (intro run_AtDisable)
qed

theorem read_is_atomic_witness:
  "wf_state power_on \<and>
   length [0, 0, 0, 0, 0, 0, 0, 0 :: byte] = unat PAYLOAD_SIZE \<and>
   returned_message
     (run [Irq 8 [0xA1, 0xA2, 0xA3, 0xA4, 0xA5, 0xA6, 0xA7, 0xA8],
           Step, Step, Step,
           Irq 3 [0xB1, 0xB2, 0xB3, 0, 0, 0, 0, 0],
           Step, Step, Step, Step, Step, Step, Step, Step,
           Irq 3 [0xB1, 0xB2, 0xB3, 0, 0, 0, 0, 0]]
        (AtDisable, [0, 0, 0, 0, 0, 0, 0, 0], power_on)) =
     Some [0xA1, 0xA2, 0xA3, 0xA4, 0xA5, 0xA6, 0xA7, 0xA8] \<and>
   (\<exists>es1 es2 s1.
      [Irq 8 [0xA1, 0xA2, 0xA3, 0xA4, 0xA5, 0xA6, 0xA7, 0xA8],
       Step, Step, Step,
       Irq 3 [0xB1, 0xB2, 0xB3, 0, 0, 0, 0, 0],
       Step, Step, Step, Step, Step, Step, Step, Step,
       Irq 3 [0xB1, 0xB2, 0xB3, 0, 0, 0, 0, 0]] = es1 @ Step # es2 \<and>
      Step \<notin> set es1 \<and>
      run es1 (AtDisable, [0, 0, 0, 0, 0, 0, 0, 0], power_on) =
        Inr (AtDisable, [0, 0, 0, 0, 0, 0, 0, 0], s1) \<and>
      [0xA1, 0xA2, 0xA3, 0xA4, 0xA5, 0xA6, 0xA7, 0xA8] = rxbuffer s1)"
proof -
  have h1: "wf_state power_on" by (simp add: wf_state_def power_on_def PAYLOAD_SIZE_def)
  have h2: "length [0, 0, 0, 0, 0, 0, 0, 0 :: byte] = unat PAYLOAD_SIZE"
    by (simp add: PAYLOAD_SIZE_def)
  have h3: "returned_message
     (run [Irq 8 [0xA1, 0xA2, 0xA3, 0xA4, 0xA5, 0xA6, 0xA7, 0xA8],
           Step, Step, Step,
           Irq 3 [0xB1, 0xB2, 0xB3, 0, 0, 0, 0, 0],
           Step, Step, Step, Step, Step, Step, Step, Step,
           Irq 3 [0xB1, 0xB2, 0xB3, 0, 0, 0, 0, 0]]
        (AtDisable, [0, 0, 0, 0, 0, 0, 0, 0], power_on)) =
     Some [0xA1, 0xA2, 0xA3, 0xA4, 0xA5, 0xA6, 0xA7, 0xA8]"
    by code_simp
  note c = read_is_atomic [OF h1 h2 h3]
  show ?thesis
    by (intro conjI) (rule h1 h2 h3 c)+
qed

end
